theory Spec2Isabelle
  imports Complex_Main "HOL-Library.Word" "HOL-Library.Log_Nat"
begin

section \<open>Python floats\<close>

text \<open>
  Both scripts compute with Python floats (IEEE 754 binary64). A float is modelled by the
  rational number it denotes; every arithmetic operation computes the exact result and
  rounds it to the nearest number with a 53-bit significand, ties to even (\<open>rnd\<close>).
  The exponent range is not modelled: no quantity of the two scripts comes near an overflow
  or a subnormal number for any image size the imaging library accepts. The only divisors
  in the two scripts are the constants \<open>3 * 255\<close> and \<open>num_shelves + 1\<close>, so the
  division by zero that Python raises does not occur.
\<close>

definition pow2 :: "int \<Rightarrow> rat" where
  "pow2 e = (if 0 \<le> e then 2 ^ nat e else 1 / 2 ^ nat (- e))"

text \<open>The binary exponent of a positive rational: \<open>pow2 (ilog2 q) \<le> q < pow2 (ilog2 q + 1)\<close>.\<close>

definition ilog2 :: "rat \<Rightarrow> int" where
  "ilog2 q = (if 1 \<le> q then bitlen \<lfloor>q\<rfloor> - 1 else - bitlen (\<lceil>1 / q\<rceil> - 1))"

definition round_even :: "rat \<Rightarrow> int" where
  "round_even q =
     (let f = \<lfloor>q\<rfloor>; r = q - of_int f
      in if r < 1 / 2 then f
         else if 1 / 2 < r then f + 1
         else if even f then f else f + 1)"

definition rnd :: "rat \<Rightarrow> rat" where
  "rnd q =
     (if q = 0 then 0
      else let u = pow2 (ilog2 \<bar>q\<bar> - 52)
           in of_int (round_even (q / u)) * u)"

definition fadd :: "rat \<Rightarrow> rat \<Rightarrow> rat" where
  "fadd a b = rnd (a + b)"

definition fsub :: "rat \<Rightarrow> rat \<Rightarrow> rat" where
  "fsub a b = rnd (a - b)"

definition fmul :: "rat \<Rightarrow> rat \<Rightarrow> rat" where
  "fmul a b = rnd (a * b)"

definition fdiv :: "rat \<Rightarrow> rat \<Rightarrow> rat" where
  "fdiv a b = rnd (a / b)"

text \<open>\<open>float(n)\<close> of a Python integer, as the mixed operators \<open>int * float\<close> apply it.\<close>

definition float_of_int :: "int \<Rightarrow> rat" where
  "float_of_int n = rnd (of_int n)"

text \<open>\<open>a / b\<close> on two Python integers: the correctly rounded quotient.\<close>

definition int_truediv :: "int \<Rightarrow> int \<Rightarrow> rat" where
  "int_truediv a b = rnd (of_int a / of_int b)"

text \<open>\<open>int(x)\<close> on a float: truncation towards zero.\<close>

definition py_int :: "rat \<Rightarrow> int" where
  "py_int x = (if 0 \<le> x then \<lfloor>x\<rfloor> else \<lceil>x\<rceil>)"

section \<open>Raster images\<close>

type_synonym u8 = "8 word"

type_synonym rgba = "u8 \<times> u8 \<times> u8 \<times> u8"

text \<open>
  An RGBA image of the imaging library: its size and its pixels in row-major order,
  pixel \<open>(x, y)\<close> at index \<open>y * width + x\<close>.
\<close>

record image =
  width :: nat
  height :: nat
  data :: "rgba list"

definition wf_image :: "image \<Rightarrow> bool" where
  "wf_image img = (length (data img) = width img * height img)"

text \<open>\<open>Image.new('RGBA', (w, h), c)\<close>.\<close>

definition Image_new :: "nat \<Rightarrow> nat \<Rightarrow> rgba \<Rightarrow> image" where
  "Image_new w h c = \<lparr>width = w, height = h, data = replicate (w * h) c\<rparr>"

text \<open>
  Pixel access \<open>pixels[x, y]\<close>, read and write. Both loops below stay inside
  \<open>range(width)\<close> and \<open>range(height)\<close>, where the index is in range.
\<close>

definition getpixel :: "image \<Rightarrow> nat \<times> nat \<Rightarrow> rgba" where
  "getpixel img p = data img ! (snd p * width img + fst p)"

definition putpixel :: "image \<Rightarrow> nat \<times> nat \<Rightarrow> rgba \<Rightarrow> image" where
  "putpixel img p c = img\<lparr>data := (data img)[snd p * width img + fst p := c]\<rparr>"

text \<open>The four channels of a pixel.\<close>

definition red :: "rgba \<Rightarrow> u8" where
  "red px = fst px"

definition green :: "rgba \<Rightarrow> u8" where
  "green px = fst (snd px)"

definition blue :: "rgba \<Rightarrow> u8" where
  "blue px = fst (snd (snd px))"

definition alpha :: "rgba \<Rightarrow> u8" where
  "alpha px = snd (snd (snd px))"

section \<open>The drawing interface of the imaging library\<close>

text \<open>
  The imaging library is not part of the repository. Its drawing interface is modelled in
  two layers, as the library has them. The rasteriser, which decides the pixels that a
  geometric primitive covers, is a parameter \<open>R\<close> of everything below: the theorems hold
  for every rasteriser unless they state an assumption on it. The drawing methods
  (\<open>draw.ellipse\<close>, \<open>draw.rectangle\<close>, \<open>draw.polygon\<close>, \<open>draw.line\<close>) paint the
  fill first and the outline second, and an ink replaces the pixels it covers (an RGBA
  image is drawn on without blending).
\<close>

type_synonym point = "rat \<times> rat"

type_synonym box = "rat \<times> rat \<times> rat \<times> rat"

datatype prim =
    FillEllipse box
  | FillRect box
  | StrokeRect box int
  | FillPoly "point list"
  | StrokePoly "point list"
  | StrokeLines "point list" int

type_synonym raster = "prim \<Rightarrow> nat \<times> nat \<Rightarrow> bool"

definition paint :: "raster \<Rightarrow> prim \<Rightarrow> rgba \<Rightarrow> image \<Rightarrow> image" where
  "paint R p ink img =
     img\<lparr>data := map (\<lambda>i. if R p (i mod width img, i div width img) then ink
                            else data img ! i)
                    [0..<length (data img)]\<rparr>"

datatype call =
    Ellipse box rgba
  | Rectangle box rgba rgba int
  | Polygon "point list" rgba rgba
  | Line "point list" rgba int

text \<open>The passes of a drawing call: the primitives it rasterises, each with its ink.\<close>

fun passes :: "call \<Rightarrow> (prim \<times> rgba) list" where
  "passes (Ellipse xy fill) = [(FillEllipse xy, fill)]"
| "passes (Rectangle xy fill outline w) =
     (FillRect xy, fill) #
     (if outline \<noteq> fill \<and> w \<noteq> 0 then [(StrokeRect xy w, outline)] else [])"
| "passes (Polygon xy fill outline) =
     (FillPoly xy, fill) # (if outline \<noteq> fill then [(StrokePoly xy, outline)] else [])"
| "passes (Line xy fill w) = [(StrokeLines xy w, fill)]"

definition draw :: "raster \<Rightarrow> call \<Rightarrow> image \<Rightarrow> image" where
  "draw R c img = fold (\<lambda>(p, ink). paint R p ink) (passes c) img"

text \<open>A drawing call is opaque when every ink it paints with has alpha 255.\<close>

definition opaque_call :: "call \<Rightarrow> bool" where
  "opaque_call c = list_all (\<lambda>pass. alpha (snd pass) = 255) (passes c)"

section \<open>The Icon Recolorizer: \<open>update_icons.py\<close>\<close>

definition light_red :: rgba where
  "light_red = (255, 179, 186, 255)"

definition circle_margin :: int where
  "circle_margin = 0"

text \<open>
  \<open>new_img\<close> after lines 13 to 21: the transparent image with the light red disc drawn
  on it, before the loop over the pixels.
\<close>

definition background :: "raster \<Rightarrow> nat \<Rightarrow> nat \<Rightarrow> image" where
  "background R w h =
     draw R (Ellipse (of_int circle_margin, of_int circle_margin,
                      of_int (int w - circle_margin), of_int (int h - circle_margin))
                     light_red)
            (Image_new w h (0, 0, 0, 0))"

text \<open>Lines 42 to 46: the brown pixel written for a source pixel \<open>(r, g, b, a)\<close>.\<close>

definition brown_pixel :: "rgba \<Rightarrow> rgba" where
  "brown_pixel px =
     (case px of (r, g, b, a) \<Rightarrow>
        let intensity = int_truediv (uint r + uint g + uint b) (3 * 255);
            brown_r = py_int (fmul (float_of_int 139) intensity);
            brown_g = py_int (fmul (float_of_int 69) intensity);
            brown_b = py_int (fmul (float_of_int 19) intensity)
        in (word_of_int brown_r, word_of_int brown_g, word_of_int brown_b, a))"

text \<open>Lines 30 to 46: the body of the loop at \<open>(x, y)\<close>.\<close>

definition process_pixel :: "image \<Rightarrow> nat \<Rightarrow> nat \<Rightarrow> image \<Rightarrow> image" where
  "process_pixel img x y new_img =
     (case getpixel img (x, y) of (r, g, b, a) \<Rightarrow>
        if a = 0 then new_img
        else if 0 < a then putpixel new_img (x, y) (brown_pixel (r, g, b, a))
        else new_img)"

text \<open>
  \<open>update_icon\<close> from the image that \<open>Image.open(input_path).convert('RGBA')\<close> returns
  to the image that is saved.
\<close>

definition update_icon :: "raster \<Rightarrow> image \<Rightarrow> image" where
  "update_icon R img =
     (let w = width img; h = height img;
          new_img = background R w h
      in fold (\<lambda>y. fold (\<lambda>x. process_pixel img x y) [0..<w]) [0..<h] new_img)"

text \<open>
  A two by two source icon for the concrete instances: a transparent pixel, an opaque
  white one, a half-transparent coloured one, and a transparent one that still carries
  colour.
\<close>

definition sample_icon :: image where
  "sample_icon =
     \<lparr>width = 2, height = 2,
      data = [(0, 0, 0, 0), (255, 255, 255, 255), (100, 150, 200, 128), (10, 20, 30, 0)]\<rparr>"

section \<open>The Icon Synthesizer: \<open>create_custom_icon.py\<close>\<close>

text \<open>A float literal, and \<open>float(size)\<close> for the mixed products \<open>size * 0.15\<close>.\<close>

definition flit :: "rat \<Rightarrow> rat" where
  "flit q = rnd q"

definition fsize :: "nat \<Rightarrow> rat" where
  "fsize sz = float_of_int (int sz)"

definition off_white :: rgba where
  "off_white = (245, 245, 240, 255)"

definition brown :: rgba where
  "brown = (139, 69, 19, 255)"

definition dark_brown :: rgba where
  "dark_brown = (101, 50, 14, 255)"

definition box_outline :: rgba where
  "box_outline = (80, 40, 10, 255)"

definition margin :: "nat \<Rightarrow> rat" where
  "margin sz = fmul (fsize sz) (flit (15 / 100))"

definition content_width :: "nat \<Rightarrow> rat" where
  "content_width sz = fsub (fsize sz) (fmul (float_of_int 2) (margin sz))"

definition content_height :: "nat \<Rightarrow> rat" where
  "content_height sz = fsub (fsize sz) (fmul (float_of_int 2) (margin sz))"

definition shelf_thickness :: "nat \<Rightarrow> rat" where
  "shelf_thickness sz = fmul (fsize sz) (flit (4 / 100))"

definition num_shelves :: nat where
  "num_shelves = 3"

definition shelf_spacing :: "nat \<Rightarrow> rat" where
  "shelf_spacing sz = fdiv (content_height sz) (float_of_int (int num_shelves + 1))"

definition box_width :: "nat \<Rightarrow> rat" where
  "box_width sz = fmul (fsize sz) (flit (12 / 100))"

definition box_height :: "nat \<Rightarrow> rat" where
  "box_height sz = fmul (fsize sz) (flit (10 / 100))"

definition box_depth :: "nat \<Rightarrow> rat" where
  "box_depth sz = fmul (fsize sz) (flit (6 / 100))"

text \<open>Lines 38 to 68: the three drawing calls of shelf \<open>i\<close>.\<close>

definition draw_shelf :: "nat \<Rightarrow> nat \<Rightarrow> call list" where
  "draw_shelf sz i =
     (let shelf_y = fadd (margin sz) (fmul (shelf_spacing sz) (float_of_int (int i + 1)));
          shelf_depth = box_depth sz;
          shelf_left = fsub (margin sz) (fmul (fsize sz) (flit (5 / 100)));
          shelf_right = fadd (fadd (margin sz) (content_width sz)) (fmul (fsize sz) (flit (5 / 100)));
          top_points =
            [(shelf_left, shelf_y),
             (fadd shelf_left (fmul shelf_depth (flit (5 / 10))),
              fsub shelf_y (fmul shelf_depth (flit (3 / 10)))),
             (fadd shelf_right (fmul shelf_depth (flit (5 / 10))),
              fsub shelf_y (fmul shelf_depth (flit (3 / 10)))),
             (shelf_right, shelf_y)];
          right_points =
            [(shelf_right, shelf_y),
             (fadd shelf_right (fmul shelf_depth (flit (5 / 10))),
              fsub shelf_y (fmul shelf_depth (flit (3 / 10)))),
             (fadd shelf_right (fmul shelf_depth (flit (5 / 10))),
              fsub (fadd shelf_y (shelf_thickness sz)) (fmul shelf_depth (flit (3 / 10)))),
             (shelf_right, fadd shelf_y (shelf_thickness sz))]
      in [Rectangle (fsub (margin sz) (fmul (fsize sz) (flit (5 / 100))), shelf_y,
                     fadd (fadd (margin sz) (content_width sz)) (fmul (fsize sz) (flit (5 / 100))),
                     fadd shelf_y (shelf_thickness sz))
                    dark_brown box_outline
                    (max 1 (py_int (fmul (fsize sz) (flit (5 / 1000))))),
          Polygon top_points (121, 70, 34, 255) box_outline,
          Polygon right_points (81, 50, 24, 255) box_outline])"

definition shelf_1_y :: "nat \<Rightarrow> rat" where
  "shelf_1_y sz =
     fsub (fadd (margin sz) (fmul (shelf_spacing sz) (float_of_int 1))) (box_height sz)"

definition boxes_shelf_1 :: "nat \<Rightarrow> rat list" where
  "boxes_shelf_1 sz =
     [fadd (margin sz) (fmul (fsize sz) (flit (5 / 100))),
      fadd (margin sz) (fmul (fsize sz) (flit (22 / 100))),
      fadd (margin sz) (fmul (fsize sz) (flit (39 / 100)))]"

definition shelf_2_y :: "nat \<Rightarrow> rat" where
  "shelf_2_y sz =
     fsub (fadd (margin sz) (fmul (shelf_spacing sz) (float_of_int 2))) (box_height sz)"

definition boxes_shelf_2 :: "nat \<Rightarrow> rat list" where
  "boxes_shelf_2 sz =
     [fadd (margin sz) (fmul (fsize sz) (flit (1 / 10))),
      fadd (margin sz) (fmul (fsize sz) (flit (32 / 100)))]"

definition shelf_3_y :: "nat \<Rightarrow> rat" where
  "shelf_3_y sz =
     fsub (fadd (margin sz) (fmul (shelf_spacing sz) (float_of_int 3))) (box_height sz)"

definition boxes_shelf_3 :: "nat \<Rightarrow> rat list" where
  "boxes_shelf_3 sz =
     [fadd (margin sz) (fmul (fsize sz) (flit (2 / 100))),
      fadd (margin sz) (fmul (fsize sz) (flit (2 / 10))),
      fadd (margin sz) (fmul (fsize sz) (flit (42 / 100)))]"

text \<open>Lines 95 to 129: the four drawing calls of one box.\<close>

definition draw_3d_box :: "nat \<Rightarrow> rat \<Rightarrow> rat \<Rightarrow> rat \<Rightarrow> rat \<Rightarrow> rat \<Rightarrow> call list" where
  "draw_3d_box sz x y w h d =
     (let top_points =
            [(x, y),
             (fadd x (fmul d (flit (5 / 10))), fsub y (fmul d (flit (3 / 10)))),
             (fadd (fadd x w) (fmul d (flit (5 / 10))), fsub y (fmul d (flit (3 / 10)))),
             (fadd x w, y)];
          right_points =
            [(fadd x w, y),
             (fadd (fadd x w) (fmul d (flit (5 / 10))), fsub y (fmul d (flit (3 / 10)))),
             (fadd (fadd x w) (fmul d (flit (5 / 10))),
              fsub (fadd y h) (fmul d (flit (3 / 10)))),
             (fadd x w, fadd y h)];
          line_y = fadd y (fmul h (flit (4 / 10)))
      in [Rectangle (x, y, fadd x w, fadd y h) brown box_outline
                    (max 1 (py_int (fmul (fsize sz) (flit (5 / 1000))))),
          Polygon top_points (169, 89, 39, 255) box_outline,
          Polygon right_points (109, 59, 29, 255) box_outline,
          Line [(fadd x (fmul w (flit (2 / 10))), line_y),
                (fadd x (fmul w (flit (8 / 10))), line_y)]
               box_outline
               (max 1 (py_int (fmul (fsize sz) (flit (4 / 1000)))))])"

text \<open>The drawing calls of \<open>create_storage_icon\<close>, in the order of the source.\<close>

definition backdrop :: "nat \<Rightarrow> call" where
  "backdrop sz = Ellipse (0, 0, of_nat sz, of_nat sz) off_white"

definition shelves :: "nat \<Rightarrow> call list" where
  "shelves sz = concat (map (draw_shelf sz) [0..<num_shelves])"

definition boxes :: "nat \<Rightarrow> call list" where
  "boxes sz =
     concat (map (\<lambda>box_x. draw_3d_box sz box_x (shelf_1_y sz) (box_width sz) (box_height sz)
                             (box_depth sz)) (boxes_shelf_1 sz))
     @ concat (map (\<lambda>box_x. draw_3d_box sz box_x (shelf_2_y sz) (box_width sz) (box_height sz)
                               (box_depth sz)) (boxes_shelf_2 sz))
     @ concat (map (\<lambda>box_x. draw_3d_box sz box_x (shelf_3_y sz) (box_width sz) (box_height sz)
                               (box_depth sz)) (boxes_shelf_3 sz))"

definition drawing_calls :: "nat \<Rightarrow> call list" where
  "drawing_calls sz = backdrop sz # shelves sz @ boxes sz"

text \<open>The image that \<open>create_storage_icon\<close> saves.\<close>

definition storage_icon :: "raster \<Rightarrow> nat \<Rightarrow> image" where
  "storage_icon R sz = fold (draw R) (drawing_calls sz) (Image_new sz sz (0, 0, 0, 0))"



section \<open>Rasterisers that stay near the shape\<close>

text \<open>
  The extent of a primitive, widened by a margin \<open>m\<close>: a bounding box, the ellipse
  inscribed in a bounding box, and the bounding box of a list of points.
\<close>

definition in_box :: "box \<Rightarrow> rat \<Rightarrow> point \<Rightarrow> bool" where
  "in_box b m p =
     (case b of (x0, y0, x1, y1) \<Rightarrow> case p of (x, y) \<Rightarrow>
        x0 - m \<le> x \<and> x \<le> x1 + m \<and> y0 - m \<le> y \<and> y \<le> y1 + m)"

definition in_ellipse :: "box \<Rightarrow> rat \<Rightarrow> point \<Rightarrow> bool" where
  "in_ellipse b m p =
     (case b of (x0, y0, x1, y1) \<Rightarrow> case p of (x, y) \<Rightarrow>
        (2 * x - x0 - x1)\<^sup>2 * (y1 - y0 + 2 * m)\<^sup>2 + (2 * y - y0 - y1)\<^sup>2 * (x1 - x0 + 2 * m)\<^sup>2
          \<le> (x1 - x0 + 2 * m)\<^sup>2 * (y1 - y0 + 2 * m)\<^sup>2)"

definition in_hull :: "point list \<Rightarrow> rat \<Rightarrow> point \<Rightarrow> bool" where
  "in_hull ps m p =
     (case p of (x, y) \<Rightarrow>
        list_ex (\<lambda>q. fst q - m \<le> x) ps \<and> list_ex (\<lambda>q. x \<le> fst q + m) ps \<and>
        list_ex (\<lambda>q. snd q - m \<le> y) ps \<and> list_ex (\<lambda>q. y \<le> snd q + m) ps)"

text \<open>
  What a rasteriser may reach: the pixels within one pixel of the extent of a fill, and
  within the stroke width and one pixel of the extent of a stroke. A rasteriser is local
  when it covers no other pixel.
\<close>

fun reach :: "prim \<Rightarrow> point \<Rightarrow> bool" where
  "reach (FillEllipse b) p = in_ellipse b 1 p"
| "reach (FillRect b) p = in_box b 1 p"
| "reach (StrokeRect b w) p = in_box b (of_int \<bar>w\<bar> + 1) p"
| "reach (FillPoly ps) p = in_hull ps 1 p"
| "reach (StrokePoly ps) p = in_hull ps 1 p"
| "reach (StrokeLines ps w) p = in_hull ps (of_int \<bar>w\<bar> + 1) p"

definition local_raster :: "raster \<Rightarrow> bool" where
  "local_raster R = (\<forall>p x y. R p (x, y) \<longrightarrow> reach p (of_nat x, of_nat y))"

section \<open>A reference rasteriser\<close>

text \<open>
  One rasteriser, for the concrete instances below: a pixel is covered when its integer
  coordinates lie in the geometric shape. An ellipse is the one inscribed in its bounding
  box, a polygon is filled by the even-odd rule inside the bounding box of its points, and
  a stroke of width \<open>w\<close> covers the pixels within \<open>w / 2\<close> of a segment.
\<close>

fun edges :: "point list \<Rightarrow> (point \<times> point) list" where
  "edges (a # b # ps) = (a, b) # edges (b # ps)"
| "edges ps = []"

definition closed_edges :: "point list \<Rightarrow> (point \<times> point) list" where
  "closed_edges ps = (case ps of [] \<Rightarrow> [] | a # _ \<Rightarrow> edges (ps @ [a]))"

definition crosses :: "point \<Rightarrow> point \<times> point \<Rightarrow> bool" where
  "crosses p e =
     (case p of (x, y) \<Rightarrow> case e of ((ax, ay), (bx, by)) \<Rightarrow>
        (y < ay) \<noteq> (y < by) \<and> x < ax + (y - ay) * (bx - ax) / (by - ay))"

definition near_segment :: "rat \<Rightarrow> point \<Rightarrow> point \<times> point \<Rightarrow> bool" where
  "near_segment d p e =
     (case p of (x, y) \<Rightarrow> case e of ((ax, ay), (bx, by)) \<Rightarrow>
        in_box (min ax bx, min ay by, max ax bx, max ay by) d p \<and>
        ((bx - ax) * (y - ay) - (by - ay) * (x - ax))\<^sup>2
          \<le> d\<^sup>2 * ((bx - ax)\<^sup>2 + (by - ay)\<^sup>2))"

fun covers :: "prim \<Rightarrow> point \<Rightarrow> bool" where
  "covers (FillEllipse b) p = (in_box b 0 p \<and> in_ellipse b 0 p)"
| "covers (FillRect b) p = in_box b 0 p"
| "covers (StrokeRect b w) p =
     (case b of (x0, y0, x1, y1) \<Rightarrow>
        in_box b 0 p \<and> \<not> in_box (x0 + of_int w, y0 + of_int w, x1 - of_int w, y1 - of_int w) 0 p)"
| "covers (FillPoly ps) p =
     (in_hull ps 0 p \<and> odd (length (filter (crosses p) (closed_edges ps))))"
| "covers (StrokePoly ps) p = list_ex (near_segment (1 / 2) p) (closed_edges ps)"
| "covers (StrokeLines ps w) p = list_ex (near_segment (of_int w / 2) p) (edges ps)"

definition ideal_raster :: raster where
  "ideal_raster p xy = covers p (of_nat (fst xy), of_nat (snd xy))"

section \<open>The layout of the scene in units of the size\<close>


fun ycoords :: "call \<Rightarrow> rat list" where
  "ycoords (Ellipse xy fill) = (case xy of (x0, y0, x1, y1) \<Rightarrow> [y0, y1])"
| "ycoords (Rectangle xy fill outline w) = (case xy of (x0, y0, x1, y1) \<Rightarrow> [y0, y1])"
| "ycoords (Polygon ps fill outline) = map snd ps"
| "ycoords (Line ps fill w) = map snd ps"

text \<open>The stroke width that a drawing call passes to the rasteriser.\<close>

fun stroke :: "call \<Rightarrow> int" where
  "stroke (Ellipse xy fill) = 0"
| "stroke (Rectangle xy fill outline w) = w"
| "stroke (Polygon ps fill outline) = 0"
| "stroke (Line ps fill w) = w"

datatype kind = KEllipse | KRectangle | KPolygon nat | KLine nat

fun kind_of :: "call \<Rightarrow> kind" where
  "kind_of (Ellipse xy fill) = KEllipse"
| "kind_of (Rectangle xy fill outline w) = KRectangle"
| "kind_of (Polygon ps fill outline) = KPolygon (length ps)"
| "kind_of (Line ps fill w) = KLine (length ps)"

text \<open>
  The layout that the source lays out by hand, as exact fractions of \<open>size\<close>: the
  three shelves at the levels \<open>0.325\<close>, \<open>0.5\<close> and \<open>0.675\<close>, each a front rectangle
  from \<open>0.10\<close> to \<open>0.90\<close> that is \<open>0.04\<close> thick, a top face and a right face that
  recede by \<open>(0.03, -0.018)\<close>; and the boxes, \<open>0.12\<close> wide and \<open>0.10\<close> high, whose
  front rectangle stands on a shelf level, with a top face, a right face and a tape line.
  The lists give the x and the y coordinates in the order of the drawing calls.
\<close>

definition shelf_level :: "nat \<Rightarrow> rat" where
  "shelf_level i = 15 / 100 + 175 / 1000 * of_nat (i + 1)"


definition shelf_ys :: "nat \<Rightarrow> rat list" where
  "shelf_ys i =
     (let y = shelf_level i
      in [y, y + 4 / 100,
          y, y - 18 / 1000, y - 18 / 1000, y,
          y, y - 18 / 1000, y + 22 / 1000, y + 4 / 100])"


definition box_ys :: "rat \<Rightarrow> rat list" where
  "box_ys y =
     [y, y + 10 / 100,
      y, y - 18 / 1000, y - 18 / 1000, y,
      y, y - 18 / 1000, y + 82 / 1000, y + 10 / 100,
      y + 4 / 100, y + 4 / 100]"




definition tol :: "nat \<Rightarrow> rat" where
  "tol sz = of_nat sz / 2 ^ 50"

definition near :: "nat \<Rightarrow> rat \<Rightarrow> nat \<Rightarrow> rat \<Rightarrow> bool" where
  "near n k sz x = (\<bar>x - k * of_nat sz\<bar> \<le> of_nat n * tol sz)"

section \<open>Rounding error of the float model\<close>

lemma pow2_pos: "0 < pow2 e"
  by (simp add: pow2_def)

lemma pow2_powi: "pow2 e = 2 powi e"
  by (simp add: pow2_def power_int_def inverse_eq_divide power_one_over)

lemma pow2_add: "pow2 (a + b) = pow2 a * pow2 b"
  by (simp add: pow2_powi power_int_add)

lemma ilog2_bounds:
  assumes "0 < q"
  shows "pow2 (ilog2 q) \<le> q" and "q < pow2 (ilog2 q + 1)"
proof -
  have "pow2 (ilog2 q) \<le> q \<and> q < pow2 (ilog2 q + 1)"
  proof (cases "1 \<le> q")
    case True
    define n where "n = \<lfloor>q\<rfloor>"
    have n1: "1 \<le> n" using True by (simp add: n_def le_floor_iff)
    then have npos: "0 < n" by simp
    have B1: "1 \<le> bitlen n" using npos bitlen_eq_zero_iff[of n] bitlen_nonneg[of n] by linarith
    from bitlen_bounds[OF npos]
    have lo: "(2::int) ^ nat (bitlen n - 1) \<le> n" and hi: "n < 2 ^ nat (bitlen n)" by simp_all
    have e: "ilog2 q = bitlen n - 1" using True by (simp add: ilog2_def n_def)
    have "pow2 (bitlen n - 1) = of_int (2 ^ nat (bitlen n - 1))"
      using B1 by (simp add: pow2_def)
    also have "\<dots> \<le> of_int n" using lo by (simp only: of_int_le_iff)
    also have "\<dots> \<le> q" by (simp add: n_def)
    finally have 1: "pow2 (ilog2 q) \<le> q" by (simp add: e)
    have "n + 1 \<le> 2 ^ nat (bitlen n)" using hi by simp
    then have "(of_int (n + 1) :: rat) \<le> of_int (2 ^ nat (bitlen n))"
      by (simp only: of_int_le_iff)
    moreover have "q < of_int (n + 1)" unfolding n_def by linarith
    ultimately have "q < of_int (2 ^ nat (bitlen n))" by linarith
    moreover have "pow2 (bitlen n) = of_int (2 ^ nat (bitlen n))"
      using B1 by (simp add: pow2_def)
    ultimately have 2: "q < pow2 (ilog2 q + 1)" by (simp add: e)
    from 1 2 show ?thesis ..
  next
    case False
    define t where "t = 1 / q"
    define m where "m = \<lceil>t\<rceil>"
    have t1: "1 < t" using False assms by (simp add: t_def)
    have m2: "2 \<le> m" using t1 unfolding m_def by linarith
    then have mpos: "0 < m - 1" by simp
    define B where "B = bitlen (m - 1)"
    have B1: "1 \<le> B" using mpos bitlen_eq_zero_iff[of "m - 1"] bitlen_nonneg[of "m - 1"]
      unfolding B_def by linarith
    from bitlen_bounds[OF mpos]
    have lo: "(2::int) ^ nat (B - 1) \<le> m - 1" and hi: "m - 1 < 2 ^ nat B"
      by (simp_all add: B_def)
    have e: "ilog2 q = - B" using False by (simp add: ilog2_def B_def m_def t_def)
    have q: "q = 1 / t" by (simp add: t_def)
    have tpos: "0 < t" using t1 by simp
    have "m \<le> 2 ^ nat B" using hi by simp
    then have "(of_int m :: rat) \<le> of_int (2 ^ nat B)" by (simp only: of_int_le_iff)
    moreover have "t \<le> of_int m" by (simp add: m_def)
    ultimately have "t \<le> of_int (2 ^ nat B)" by (rule order_trans[rotated])
    then have tle: "t \<le> 2 ^ nat B" by simp
    have "pow2 (- B) = 1 / 2 ^ nat B" using B1 by (simp add: pow2_def)
    also have "\<dots> \<le> 1 / t" using tle tpos by (simp add: frac_le)
    finally have "pow2 (- B) \<le> 1 / t" .
    then have 1: "pow2 (ilog2 q) \<le> q" by (simp add: e t_def)
    have "(of_int (2 ^ nat (B - 1)) :: rat) \<le> of_int (m - 1)" using lo by (simp only: of_int_le_iff)
    moreover have "of_int (m - 1) < t" unfolding m_def by linarith
    ultimately have "of_int (2 ^ nat (B - 1)) < t" by (rule le_less_trans)
    then have lt: "2 ^ nat (B - 1) < t" by simp
    have "pow2 (- B + 1) = 1 / 2 ^ nat (B - 1)"
      using B1 by (auto simp add: pow2_def)
    moreover have "1 / t < 1 / 2 ^ nat (B - 1)" using lt
      by (simp add: frac_less2)
    ultimately have "1 / t < pow2 (- B + 1)" by simp
    then have 2: "q < pow2 (ilog2 q + 1)" by (simp add: e t_def)
    from 1 2 show ?thesis ..
  qed
  then show "pow2 (ilog2 q) \<le> q" and "q < pow2 (ilog2 q + 1)" by simp_all
qed

lemma round_even_err: "\<bar>of_int (round_even x) - x\<bar> \<le> 1 / 2"
proof -
  have "of_int \<lfloor>x\<rfloor> \<le> x" "x < of_int \<lfloor>x\<rfloor> + 1" by linarith+
  then show ?thesis
    by (auto simp add: round_even_def Let_def)
qed

lemma rnd_err: "\<bar>rnd q - q\<bar> \<le> \<bar>q\<bar> / 2 ^ 53"
proof (cases "q = 0")
  case True
  then show ?thesis by (simp add: rnd_def)
next
  case False
  define e where "e = ilog2 \<bar>q\<bar>"
  define u where "u = pow2 (e - 52)"
  have upos: "0 < u" by (simp add: u_def pow2_pos)
  have r: "rnd q = of_int (round_even (q / u)) * u"
    using False by (simp add: rnd_def Let_def u_def e_def)
  have "\<bar>rnd q - q\<bar> = \<bar>of_int (round_even (q / u)) - q / u\<bar> * u"
  proof -
    have "rnd q - q = (of_int (round_even (q / u)) - q / u) * u"
      using upos by (simp add: r left_diff_distrib)
    then show ?thesis using upos by (simp add: abs_mult)
  qed
  also have "\<dots> \<le> (1 / 2) * u"
    using round_even_err[of "q / u"] upos by (simp only: mult_right_mono less_imp_le)
  finally have 1: "\<bar>rnd q - q\<bar> \<le> u / 2" by simp
  have "pow2 e = pow2 ((e - 52) + 52)" by simp
  also have "\<dots> = u * 2 ^ 52" unfolding pow2_add u_def by (simp add: pow2_def)
  finally have "u = pow2 e / 2 ^ 52" by simp
  moreover have "pow2 e \<le> \<bar>q\<bar>" unfolding e_def using False by (intro ilog2_bounds) simp
  ultimately have "u / 2 \<le> \<bar>q\<bar> / 2 ^ 53" by (simp add: field_simps)
  with 1 show ?thesis by linarith
qed

section \<open>Evaluating the float model\<close>

lemma floor_rat_numeral: "\<lfloor>numeral a / numeral b :: rat\<rfloor> = numeral a div numeral b"
  using floor_divide_of_int_eq[of "numeral a" "numeral b", where 'a = rat] by simp

lemma ceiling_rat_numeral: "\<lceil>numeral a / numeral b :: rat\<rceil> = - (- numeral a div numeral b)"
  using floor_divide_of_int_eq[of "- numeral a" "numeral b", where 'a = rat] by (simp add: ceiling_def)

lemmas rnd_eval = rnd_def ilog2_def pow2_def round_even_def Let_def compute_bitlen
  floor_rat_numeral ceiling_rat_numeral

lemma rnd_0: "rnd 0 = 0" by (simp add: rnd_def)
lemma rnd_1: "rnd 1 = 1" by (simp add: rnd_eval)
lemma rnd_139: "rnd 139 = 139" by (simp add: rnd_eval)
lemma rnd_69: "rnd 69 = 69" by (simp add: rnd_eval)
lemma rnd_19: "rnd 19 = 19" by (simp add: rnd_eval)

lemma channel_generic:
  fixes c k :: int
  assumes c: "0 < c" "c \<le> 255" "rnd (of_int c) = of_int c"
    and k: "0 \<le> k" "k \<le> 765"
    and nd: "\<not> 765 dvd c * k"
  shows "py_int (fmul (float_of_int c) (int_truediv k (3 * 255))) = c * k div 765"
proof -
  define q :: rat where "q = of_int k / 765"
  define t :: rat where "t = of_int (c * k) / 765"
  define I where "I = rnd q"
  define v where "v = rnd (of_int c * I)"
  have q0: "0 \<le> q" using k by (simp add: q_def)
  have tq: "t = of_int c * q" by (simp add: t_def q_def)
  have t0: "0 \<le> t" using c k by (simp add: tq q0)
  have "q \<le> 1" using k by (simp add: q_def)
  then have "of_int c * q \<le> of_int c * 1" using c by (intro mult_left_mono) simp_all
  moreover have "(of_int c :: rat) \<le> 255" using c by simp
  ultimately have t255: "t \<le> 255" by (simp add: tq)
  have e1: "\<bar>I - q\<bar> \<le> q / 2 ^ 53"
    using rnd_err[of q] q0 by (simp add: I_def)
  have "\<bar>of_int c * I - t\<bar> = of_int c * \<bar>I - q\<bar>"
    using c by (simp add: tq right_diff_distrib[symmetric] abs_mult)
  also have "\<dots> \<le> of_int c * (q / 2 ^ 53)"
    using e1 c by (intro mult_left_mono) simp_all
  finally have e2: "\<bar>of_int c * I - t\<bar> \<le> t / 2 ^ 53" by (simp add: tq)
  have e3: "\<bar>v - of_int c * I\<bar> \<le> \<bar>of_int c * I\<bar> / 2 ^ 53"
    unfolding v_def by (rule rnd_err)
  have "\<bar>of_int c * I\<bar> \<le> t + t / 2 ^ 53" using e2 t0 by linarith
  then have "\<bar>of_int c * I\<bar> / 2 ^ 53 \<le> (t + t / 2 ^ 53) / 2 ^ 53"
    by (simp add: divide_right_mono)
  with e3 have e4: "\<bar>v - of_int c * I\<bar> \<le> (t + t / 2 ^ 53) / 2 ^ 53" by linarith
  have "t / 2 ^ 53 \<le> 255 / 2 ^ 53" using t255 by (simp add: divide_right_mono)
  moreover have "(t + t / 2 ^ 53) / 2 ^ 53 \<le> (255 + 255 / 2 ^ 53) / 2 ^ 53"
    using t255 by (intro divide_right_mono add_mono) simp_all
  moreover have "255 / 2 ^ 53 + (255 + 255 / 2 ^ 53) / 2 ^ 53 < (1 / 765 :: rat)" by simp
  ultimately have e5: "\<bar>v - t\<bar> < 1 / 765" using e2 e4 by linarith
  define m where "m = c * k div 765"
  define f where "f = c * k mod 765"
  have f1: "1 \<le> f" "f \<le> 764"
    using nd unfolding f_def by (simp_all add: dvd_eq_mod_eq_0)
  have ck: "c * k = m * 765 + f" by (simp add: m_def f_def)
  have tm: "t = of_int m + of_int f / 765" unfolding t_def ck by simp
  have "(1::rat) \<le> of_int f" "(of_int f :: rat) \<le> 764" using f1 by simp_all
  then have "1 / 765 \<le> of_int f / (765::rat)" "of_int f / (765::rat) \<le> 764 / 765"
    by simp_all
  with tm e5 have "of_int m \<le> v" "v < of_int m + 1" by linarith+
  then have fl: "\<lfloor>v\<rfloor> = m" by (simp add: floor_unique)
  have "0 \<le> m" unfolding m_def using c k by (simp add: pos_imp_zdiv_nonneg_iff)
  then have "0 \<le> v" using \<open>of_int m \<le> v\<close> by (meson of_int_0_le_iff order_trans)
  then have "py_int v = m" by (simp add: py_int_def fl)
  moreover have "fmul (float_of_int c) (int_truediv k (3 * 255)) = v"
    by (simp add: fmul_def float_of_int_def int_truediv_def v_def I_def q_def c)
  ultimately show ?thesis by (simp add: m_def)
qed

lemma channel_139_exact: "py_int (fmul (float_of_int 139) (int_truediv 0 (3 * 255))) = 0"
  "py_int (fmul (float_of_int 139) (int_truediv 765 (3 * 255))) = 139"
  by (simp_all add: fmul_def float_of_int_def int_truediv_def py_int_def rnd_0 rnd_1 rnd_139)

lemma channel_19_exact: "py_int (fmul (float_of_int 19) (int_truediv 0 (3 * 255))) = 0"
  "py_int (fmul (float_of_int 19) (int_truediv 765 (3 * 255))) = 19"
  by (simp_all add: fmul_def float_of_int_def int_truediv_def py_int_def rnd_0 rnd_1 rnd_19)

lemma rnd_third: "rnd (1 / 3) = 6004799503160661 / 18014398509481984"
  by (simp add: rnd_eval)

lemma rnd_two_thirds: "rnd (2 / 3) = 6004799503160661 / 9007199254740992"
  by (simp add: rnd_eval)

lemma rnd_69_third: "rnd (414331165718085609 / 18014398509481984) = 23"
  by (simp add: rnd_eval)

lemma rnd_69_two_thirds: "rnd (414331165718085609 / 9007199254740992) = 46"
  by (simp add: rnd_eval)

lemma channel_69_exact: "py_int (fmul (float_of_int 69) (int_truediv 0 (3 * 255))) = 0"
  "py_int (fmul (float_of_int 69) (int_truediv 255 (3 * 255))) = 23"
  "py_int (fmul (float_of_int 69) (int_truediv 510 (3 * 255))) = 46"
  "py_int (fmul (float_of_int 69) (int_truediv 765 (3 * 255))) = 69"
  by (simp_all add: fmul_def float_of_int_def int_truediv_def py_int_def rnd_0 rnd_1 rnd_69
      rnd_third rnd_two_thirds rnd_69_third rnd_69_two_thirds)

lemma dvd_765:
  fixes k :: int
  assumes "0 \<le> k" "k \<le> 765" "765 dvd k"
  shows "k = 0 \<or> k = 765"
proof -
  from assms(3) obtain j where j: "k = 765 * j" ..
  with assms(1,2) have "0 \<le> j" "j \<le> 1" by simp_all
  then have "j = 0 \<or> j = 1" by linarith
  with j show ?thesis by auto
qed

lemma dvd_139:
  fixes k :: int
  assumes "0 \<le> k" "k \<le> 765" "765 dvd 139 * k"
  shows "k = 0 \<or> k = 765"
proof -
  have "coprime (765::int) 139" by code_simp
  then have "765 dvd k" using assms(3) by (simp add: coprime_dvd_mult_right_iff)
  with assms(1,2) show ?thesis by (rule dvd_765)
qed

lemma dvd_19:
  fixes k :: int
  assumes "0 \<le> k" "k \<le> 765" "765 dvd 19 * k"
  shows "k = 0 \<or> k = 765"
proof -
  have "coprime (765::int) 19" by code_simp
  then have "765 dvd k" using assms(3) by (simp add: coprime_dvd_mult_right_iff)
  with assms(1,2) show ?thesis by (rule dvd_765)
qed

lemma dvd_69:
  fixes k :: int
  assumes "0 \<le> k" "k \<le> 765" "765 dvd 69 * k"
  shows "k = 0 \<or> k = 255 \<or> k = 510 \<or> k = 765"
proof -
  from assms(3) obtain j where "69 * k = 765 * j" ..
  then have "23 * k = 255 * j" by simp
  then have "255 dvd 23 * k" by simp
  moreover have "coprime (255::int) 23" by code_simp
  ultimately have "255 dvd k" by (simp add: coprime_dvd_mult_right_iff)
  then obtain i where i: "k = 255 * i" ..
  with assms(1,2) have "0 \<le> i" "i \<le> 3" by simp_all
  then have "i = 0 \<or> i = 1 \<or> i = 2 \<or> i = 3" by linarith
  with i show ?thesis by auto
qed

section \<open>Painting and the pixel loop\<close>

lemma width_paint: "width (paint R p ink img) = width img"
  by (simp add: paint_def)

lemma height_paint: "height (paint R p ink img) = height img"
  by (simp add: paint_def)

lemma length_paint: "length (data (paint R p ink img)) = length (data img)"
  by (simp add: paint_def)

lemma nth_paint:
  "i < length (data img) \<Longrightarrow>
   data (paint R p ink img) ! i =
     (if R p (i mod width img, i div width img) then ink else data img ! i)"
  by (simp add: paint_def)

lemma fold_paint_dims:
  "width (fold (\<lambda>(p, ink). paint R p ink) ps img) = width img \<and>
   height (fold (\<lambda>(p, ink). paint R p ink) ps img) = height img \<and>
   length (data (fold (\<lambda>(p, ink). paint R p ink) ps img)) = length (data img)"
  by (induction ps arbitrary: img)
    (simp_all add: width_paint height_paint length_paint split: prod.splits)

lemma width_draw: "width (draw R c img) = width img"
  by (simp add: draw_def fold_paint_dims)

lemma height_draw: "height (draw R c img) = height img"
  by (simp add: draw_def fold_paint_dims)

lemma length_draw: "length (data (draw R c img)) = length (data img)"
  by (simp add: draw_def fold_paint_dims)

lemma draw_Ellipse: "draw R (Ellipse xy fill) img = paint R (FillEllipse xy) fill img"
  by (simp add: draw_def)

lemma width_background: "width (background R w h) = w"
  by (simp add: background_def width_draw Image_new_def)

lemma height_background: "height (background R w h) = h"
  by (simp add: background_def height_draw Image_new_def)

lemma length_background: "length (data (background R w h)) = w * h"
  by (simp add: background_def length_draw Image_new_def)

lemma width_process_pixel: "width (process_pixel img x y new) = width new"
  by (simp add: process_pixel_def putpixel_def split: prod.splits)

lemma height_process_pixel: "height (process_pixel img x y new) = height new"
  by (simp add: process_pixel_def putpixel_def split: prod.splits)

lemma length_process_pixel: "length (data (process_pixel img x y new)) = length (data new)"
  by (simp add: process_pixel_def putpixel_def split: prod.splits)

lemma nth_process_pixel:
  assumes "width new = width img" "j < length (data new)"
  shows "data (process_pixel img x y new) ! j =
     (if j = y * width img + x \<and> alpha (data img ! j) \<noteq> 0
      then brown_pixel (data img ! j) else data new ! j)"
  using assms
  by (auto simp add: process_pixel_def putpixel_def getpixel_def alpha_def word_greater_zero_iff
      split: prod.splits)

lemma row_loop:
  assumes "width new = width img" "j < length (data new)"
  shows "width (fold (\<lambda>x. process_pixel img x y) xs new) = width new \<and>
         height (fold (\<lambda>x. process_pixel img x y) xs new) = height new \<and>
         length (data (fold (\<lambda>x. process_pixel img x y) xs new)) = length (data new) \<and>
         data (fold (\<lambda>x. process_pixel img x y) xs new) ! j =
           (if j \<in> (\<lambda>x. y * width img + x) ` set xs \<and> alpha (data img ! j) \<noteq> 0
            then brown_pixel (data img ! j) else data new ! j)"
  using assms
proof (induction xs arbitrary: new)
  case Nil
  then show ?case by simp
next
  case (Cons x xs)
  let ?n = "process_pixel img x y new"
  have w: "width ?n = width img" using Cons.prems by (simp add: width_process_pixel)
  have l: "j < length (data ?n)" using Cons.prems by (simp add: length_process_pixel)
  from Cons.IH[OF w l] nth_process_pixel[OF Cons.prems, of x y]
  show ?case
    by (auto simp add: width_process_pixel height_process_pixel length_process_pixel)
qed

lemma row_indices:
  assumes "0 < w"
  shows "j \<in> (\<lambda>x. y * w + x) ` set [0..<w] \<longleftrightarrow> j div w = y"
proof
  assume "j \<in> (\<lambda>x. y * w + x) ` set [0..<w]"
  then obtain x where "x \<in> set [0..<w]" "j = y * w + x" by (rule imageE)
  then show "j div w = y" by simp
next
  assume "j div w = y"
  then have "j = y * w + j mod w" by (metis div_mult_mod_eq)
  moreover have "j mod w < w" using assms by simp
  ultimately show "j \<in> (\<lambda>x. y * w + x) ` set [0..<w]" by auto
qed

lemma rows_loop:
  assumes "width new = width img" "j < length (data new)" "0 < width img"
  shows "width (fold (\<lambda>y. fold (\<lambda>x. process_pixel img x y) [0..<width img]) ys new) = width new \<and>
         height (fold (\<lambda>y. fold (\<lambda>x. process_pixel img x y) [0..<width img]) ys new) = height new \<and>
         length (data (fold (\<lambda>y. fold (\<lambda>x. process_pixel img x y) [0..<width img]) ys new))
           = length (data new) \<and>
         data (fold (\<lambda>y. fold (\<lambda>x. process_pixel img x y) [0..<width img]) ys new) ! j =
           (if j div width img \<in> set ys \<and> alpha (data img ! j) \<noteq> 0
            then brown_pixel (data img ! j) else data new ! j)"
  using assms(1,2)
proof (induction ys arbitrary: new)
  case Nil
  then show ?case by simp
next
  case (Cons y ys)
  let ?n = "fold (\<lambda>x. process_pixel img x y) [0..<width img] new"
  note r = row_loop[OF Cons.prems, of y "[0..<width img]"]
  have w: "width ?n = width img" using r Cons.prems by simp
  have l: "j < length (data ?n)" using r Cons.prems by simp
  from Cons.IH[OF w l] r row_indices[OF assms(3), of j y]
  show ?case by auto
qed

section \<open>The recoloured pixel\<close>

lemma channel_139:
  assumes "0 \<le> k" "k \<le> 765"
  shows "py_int (fmul (float_of_int 139) (int_truediv k (3 * 255))) = 139 * k div 765"
proof (cases "765 dvd 139 * k")
  case True
  with assms have "k = 0 \<or> k = 765" by (rule dvd_139)
  then show ?thesis using channel_139_exact by auto
next
  case False
  with assms show ?thesis by (intro channel_generic) (simp_all add: rnd_139)
qed

lemma channel_69:
  assumes "0 \<le> k" "k \<le> 765"
  shows "py_int (fmul (float_of_int 69) (int_truediv k (3 * 255))) = 69 * k div 765"
proof (cases "765 dvd 69 * k")
  case True
  with assms have "k = 0 \<or> k = 255 \<or> k = 510 \<or> k = 765" by (rule dvd_69)
  then show ?thesis using channel_69_exact by auto
next
  case False
  with assms show ?thesis by (intro channel_generic) (simp_all add: rnd_69)
qed

lemma channel_19:
  assumes "0 \<le> k" "k \<le> 765"
  shows "py_int (fmul (float_of_int 19) (int_truediv k (3 * 255))) = 19 * k div 765"
proof (cases "765 dvd 19 * k")
  case True
  with assms have "k = 0 \<or> k = 765" by (rule dvd_19)
  then show ?thesis using channel_19_exact by auto
next
  case False
  with assms show ?thesis by (intro channel_generic) (simp_all add: rnd_19)
qed

lemma sum_range:
  fixes r g b :: u8
  shows "0 \<le> uint r + uint g + uint b" "uint r + uint g + uint b \<le> 765"
proof -
  have "uint r < 256" "uint g < 256" "uint b < 256"
    using uint_bounded[of r] uint_bounded[of g] uint_bounded[of b] by simp_all
  then show "uint r + uint g + uint b \<le> 765" by linarith
  show "0 \<le> uint r + uint g + uint b" by simp
qed

lemma brown_pixel_div:
  "brown_pixel (r, g, b, a) =
     (word_of_int (139 * (uint r + uint g + uint b) div 765),
      word_of_int (69 * (uint r + uint g + uint b) div 765),
      word_of_int (19 * (uint r + uint g + uint b) div 765), a)"
proof -
  define k where "k = uint r + uint g + uint b"
  have k: "0 \<le> k" "k \<le> 765" unfolding k_def by (rule sum_range)+
  show ?thesis
    unfolding brown_pixel_def Let_def prod.case k_def[symmetric]
    by (simp only: channel_139[OF k] channel_69[OF k] channel_19[OF k])
qed

lemma scaled_floor:
  "\<lfloor>of_int c * ((of_int k :: rat) / (3 * 255))\<rfloor> = c * k div 765"
proof -
  have "of_int c * ((of_int k :: rat) / (3 * 255)) = of_int (c * k) / of_int 765" by simp
  then show ?thesis by (simp only: floor_divide_of_int_eq)
qed

lemma uint_u8_of_int:
  "0 \<le> n \<Longrightarrow> n < 256 \<Longrightarrow> uint (word_of_int n :: u8) = n"
  by (simp add: uint_word_of_int take_bit_int_eq_self)

lemma scaled_bounds:
  fixes c k :: int
  assumes "0 \<le> c" "0 \<le> k" "k \<le> 765"
  shows "0 \<le> c * k div 765" "c * k div 765 \<le> c"
proof -
  show "0 \<le> c * k div 765" using assms by (simp add: pos_imp_zdiv_nonneg_iff)
  have "c * k \<le> c * 765" using assms by (intro mult_left_mono) simp_all
  then have "c * k div 765 \<le> c * 765 div 765" by (rule zdiv_mono1) simp
  then show "c * k div 765 \<le> c" by simp
qed

lemma dims_rows_loop:
  "width (fold (\<lambda>y. fold (\<lambda>x. process_pixel img x y) xs) ys new) = width new \<and>
   height (fold (\<lambda>y. fold (\<lambda>x. process_pixel img x y) xs) ys new) = height new \<and>
   length (data (fold (\<lambda>y. fold (\<lambda>x. process_pixel img x y) xs) ys new)) = length (data new)"
proof (induction ys arbitrary: new)
  case Nil
  show ?case by simp
next
  case (Cons y ys)
  have inner: "width (fold (\<lambda>x. process_pixel img x y) xs n) = width n \<and>
     height (fold (\<lambda>x. process_pixel img x y) xs n) = height n \<and>
     length (data (fold (\<lambda>x. process_pixel img x y) xs n)) = length (data n)" for n
    by (induction xs arbitrary: n)
      (simp_all add: width_process_pixel height_process_pixel length_process_pixel)
  show ?case using Cons.IH inner by simp
qed

lemma update_icon_dims:
  "width (update_icon R img) = width img" "height (update_icon R img) = height img"
  "length (data (update_icon R img)) = width img * height img"
  by (simp_all add: update_icon_def Let_def dims_rows_loop width_background height_background
      length_background)

lemma index_in_range:
  assumes "x < w" "y < (h::nat)"
  shows "y * w + x < w * h"
proof -
  have "y * w + x < y * w + w" using assms by simp
  also have "\<dots> = (y + 1) * w" by simp
  also have "\<dots> \<le> h * w" using assms by (intro mult_le_mono1) simp
  finally show ?thesis by (simp add: mult.commute)
qed

lemma update_icon_pixel:
  assumes "wf_image img" "x < width img" "y < height img"
  shows "getpixel (update_icon R img) (x, y) =
     (if alpha (getpixel img (x, y)) \<noteq> 0 then brown_pixel (getpixel img (x, y))
      else getpixel (background R (width img) (height img)) (x, y))"
proof -
  let ?w = "width img" and ?h = "height img"
  let ?j = "y * ?w + x"
  let ?bg = "background R ?w ?h"
  have j: "?j < length (data ?bg)"
    using assms by (simp add: length_background index_in_range)
  have w0: "0 < ?w" using assms by simp
  have d: "?j div ?w = y" using assms by simp
  from rows_loop[OF width_background j w0, of "[0..<?h]"] assms d
  show ?thesis
    by (simp add: update_icon_def Let_def getpixel_def update_icon_dims width_background)
qed

lemma background_pixel:
  assumes "x < w" "y < h"
  shows "getpixel (background R w h) (x, y) =
     (if R (FillEllipse (0, 0, of_nat w, of_nat h)) (x, y) then light_red else (0, 0, 0, 0))"
proof -
  have j: "y * w + x < w * h" using assms by (rule index_in_range)
  have "(y * w + x) mod w = x" "(y * w + x) div w = y" using assms by simp_all
  then show ?thesis using j
    by (simp add: background_def getpixel_def Image_new_def nth_paint width_paint
        circle_margin_def draw_Ellipse)
qed

lemma wf_sample_icon: "wf_image sample_icon"
  by (simp add: wf_image_def sample_icon_def)

lemma sample_icon_pixels:
  "getpixel sample_icon (0, 0) = (0, 0, 0, 0)"
  "getpixel sample_icon (1, 0) = (255, 255, 255, 255)"
  "getpixel sample_icon (0, 1) = (100, 150, 200, 128)"
  "getpixel sample_icon (1, 1) = (10, 20, 30, 0)"
  by (simp_all add: getpixel_def sample_icon_def)

lemma sample_icon_dims: "width sample_icon = 2" "height sample_icon = 2"
  by (simp_all add: sample_icon_def)

lemma ideal_disc_2:
  "ideal_raster (FillEllipse (0, 0, 2, 2)) (1, 1)"
  "\<not> ideal_raster (FillEllipse (0, 0, 2, 2)) (0, 0)"
  by (simp_all add: ideal_raster_def in_box_def in_ellipse_def)

section \<open>The claims about the Icon Recolorizer\<close>

text \<open>
  Claim C8. For every input image, the output image of the Icon Recolorizer has the width
  and the height of the input image (and as many pixels as that size asks for).
\<close>

theorem update_icon_same_size:
  "width (update_icon R img) = width img \<and> height (update_icon R img) = height img \<and>
   wf_image (update_icon R img)"
  by (simp add: update_icon_dims wf_image_def)

theorem update_icon_same_size_witness:
  "width (update_icon ideal_raster sample_icon) = 2 \<and>
   height (update_icon ideal_raster sample_icon) = 2"
  using update_icon_same_size[of ideal_raster sample_icon] by (simp add: sample_icon_dims)

text \<open>
  Claim C1. For every source pixel \<open>(r, g, b, a)\<close> with alpha above 0, the output pixel at
  the same position has the alpha \<open>a\<close>, and its red, green and blue are 139, 69 and 19
  times the intensity \<open>(r + g + b) / (3 * 255)\<close>, rounded down to an integer. The
  intensity on the right-hand side is the exact quotient: the float computation of the
  source yields the same integers.
\<close>

theorem recolor_scales_brown:
  assumes "wf_image img" and "x < width img" and "y < height img"
    and "getpixel img (x, y) = (r, g, b, a)" and "0 < a"
  shows "uint (red (getpixel (update_icon R img) (x, y)))
           = \<lfloor>139 * (of_int (uint r + uint g + uint b) / (3 * 255) :: rat)\<rfloor> \<and>
         uint (green (getpixel (update_icon R img) (x, y)))
           = \<lfloor>69 * (of_int (uint r + uint g + uint b) / (3 * 255) :: rat)\<rfloor> \<and>
         uint (blue (getpixel (update_icon R img) (x, y)))
           = \<lfloor>19 * (of_int (uint r + uint g + uint b) / (3 * 255) :: rat)\<rfloor> \<and>
         alpha (getpixel (update_icon R img) (x, y)) = a"
proof -
  define k where "k = uint r + uint g + uint b"
  have k: "0 \<le> k" "k \<le> 765" unfolding k_def by (rule sum_range)+
  have a: "alpha (r, g, b, a) \<noteq> 0" using assms(5) by (simp add: alpha_def)
  have out: "getpixel (update_icon R img) (x, y) =
      (word_of_int (139 * k div 765), word_of_int (69 * k div 765),
       word_of_int (19 * k div 765), a)"
    using update_icon_pixel[OF assms(1-3), of R] a
    by (simp add: assms(4) brown_pixel_div k_def)
  have fl: "\<lfloor>of_int c * (of_int k / (3 * 255) :: rat)\<rfloor> = c * k div 765" for c
    by (rule scaled_floor)
  have u: "uint (word_of_int (c * k div 765) :: u8) = c * k div 765" if "0 \<le> c" "c < 256" for c
    using scaled_bounds[OF that(1) k] that(2) by (intro uint_u8_of_int) simp_all
  show ?thesis
    unfolding out k_def[symmetric]
    using fl[of 139] fl[of 69] fl[of 19] u[of 139] u[of 69] u[of 19]
    by (simp add: red_def green_def blue_def alpha_def)
qed

theorem recolor_scales_brown_witness:
  "wf_image sample_icon \<and> 0 < width sample_icon \<and> 1 < height sample_icon \<and>
   getpixel sample_icon (0, 1) = (100, 150, 200, 128) \<and>
   uint (red (getpixel (update_icon ideal_raster sample_icon) (0, 1))) = 81 \<and>
   uint (green (getpixel (update_icon ideal_raster sample_icon) (0, 1))) = 40 \<and>
   uint (blue (getpixel (update_icon ideal_raster sample_icon) (0, 1))) = 11 \<and>
   alpha (getpixel (update_icon ideal_raster sample_icon) (0, 1)) = 128"
proof -
  have h: "wf_image sample_icon" "0 < width sample_icon" "1 < height sample_icon"
    "getpixel sample_icon (0, 1) = (100, 150, 200, 128)" "0 < (128::u8)"
    by (simp_all only: wf_sample_icon sample_icon_dims sample_icon_pixels) simp_all
  from recolor_scales_brown[OF h, of ideal_raster] h(1-4) show ?thesis
    by (simp add: floor_rat_numeral)
qed

text \<open>
  Claim C7. For a fully opaque white source pixel \<open>(255, 255, 255, 255)\<close> the intensity is
  exactly 1.0, and the output pixel at its position is \<open>(139, 69, 19, 255)\<close>.
\<close>

theorem white_pixel_is_brown:
  assumes "wf_image img" and "x < width img" and "y < height img"
    and "getpixel img (x, y) = (255, 255, 255, 255)"
  shows "int_truediv (uint (255::u8) + uint (255::u8) + uint (255::u8)) (3 * 255) = 1 \<and>
         getpixel (update_icon R img) (x, y) = (139, 69, 19, 255)"
proof -
  have "alpha (255, 255, 255, 255) \<noteq> 0" by (simp add: alpha_def)
  then have "getpixel (update_icon R img) (x, y) = brown_pixel (255, 255, 255, 255)"
    using update_icon_pixel[OF assms(1-3), of R] by (simp add: assms(4))
  also have "\<dots> = (139, 69, 19, 255)" by (simp add: brown_pixel_div)
  finally show ?thesis by (simp add: int_truediv_def rnd_1)
qed

theorem white_pixel_is_brown_witness:
  "wf_image sample_icon \<and> 1 < width sample_icon \<and> 0 < height sample_icon \<and>
   getpixel sample_icon (1, 0) = (255, 255, 255, 255) \<and>
   getpixel (update_icon ideal_raster sample_icon) (1, 0) = (139, 69, 19, 255)"
proof -
  have h: "wf_image sample_icon" "1 < width sample_icon" "0 < height sample_icon"
    "getpixel sample_icon (1, 0) = (255, 255, 255, 255)"
    by (simp_all only: wf_sample_icon sample_icon_dims sample_icon_pixels)
  from white_pixel_is_brown[OF h, of ideal_raster] h show ?thesis by simp
qed

text \<open>
  Claim C9. Every remapped output pixel (every position whose source pixel has alpha above
  0) has red at least green at least blue, with red at most 139, green at most 69 and
  blue at most 19.
\<close>

theorem recolor_within_brown:
  assumes "wf_image img" and "x < width img" and "y < height img"
    and "0 < alpha (getpixel img (x, y))"
  shows "blue (getpixel (update_icon R img) (x, y)) \<le> green (getpixel (update_icon R img) (x, y)) \<and>
         green (getpixel (update_icon R img) (x, y)) \<le> red (getpixel (update_icon R img) (x, y)) \<and>
         red (getpixel (update_icon R img) (x, y)) \<le> 139 \<and>
         green (getpixel (update_icon R img) (x, y)) \<le> 69 \<and>
         blue (getpixel (update_icon R img) (x, y)) \<le> 19"
proof -
  obtain r g b a where px: "getpixel img (x, y) = (r, g, b, a)" by (cases "getpixel img (x, y)")
  define k where "k = uint r + uint g + uint b"
  have k: "0 \<le> k" "k \<le> 765" unfolding k_def by (rule sum_range)+
  have a: "alpha (r, g, b, a) \<noteq> 0" using assms(4) by (simp add: px)
  have out: "getpixel (update_icon R img) (x, y) =
      (word_of_int (139 * k div 765), word_of_int (69 * k div 765),
       word_of_int (19 * k div 765), a)"
    using update_icon_pixel[OF assms(1-3), of R] a
    by (simp add: px brown_pixel_div k_def)
  have u: "uint (word_of_int (c * k div 765) :: u8) = c * k div 765" if "0 \<le> c" "c < 256" for c
    using scaled_bounds[OF that(1) k] that(2) by (intro uint_u8_of_int) simp_all
  have m1: "19 * k div 765 \<le> 69 * k div 765" using k by (intro zdiv_mono1) simp_all
  have m2: "69 * k div 765 \<le> 139 * k div 765" using k by (intro zdiv_mono1) simp_all
  have b: "139 * k div 765 \<le> 139" "69 * k div 765 \<le> 69" "19 * k div 765 \<le> 19"
    using scaled_bounds(2)[OF _ k, of 139] scaled_bounds(2)[OF _ k, of 69]
      scaled_bounds(2)[OF _ k, of 19] by simp_all
  show ?thesis
    unfolding out using m1 m2 b u[of 139] u[of 69] u[of 19]
    by (simp add: red_def green_def blue_def word_le_def)
qed

theorem recolor_within_brown_witness:
  "wf_image sample_icon \<and> 0 < width sample_icon \<and> 1 < height sample_icon \<and>
   0 < alpha (getpixel sample_icon (0, 1)) \<and>
   blue (getpixel (update_icon ideal_raster sample_icon) (0, 1))
     \<le> green (getpixel (update_icon ideal_raster sample_icon) (0, 1)) \<and>
   green (getpixel (update_icon ideal_raster sample_icon) (0, 1))
     \<le> red (getpixel (update_icon ideal_raster sample_icon) (0, 1)) \<and>
   red (getpixel (update_icon ideal_raster sample_icon) (0, 1)) \<le> 139 \<and>
   green (getpixel (update_icon ideal_raster sample_icon) (0, 1)) \<le> 69 \<and>
   blue (getpixel (update_icon ideal_raster sample_icon) (0, 1)) \<le> 19"
proof -
  have h: "wf_image sample_icon" "0 < width sample_icon" "1 < height sample_icon"
    "0 < alpha (getpixel sample_icon (0, 1))"
    by (simp_all only: wf_sample_icon sample_icon_dims sample_icon_pixels alpha_def) simp_all
  from recolor_within_brown[OF h, of ideal_raster] h show ?thesis by simp
qed

text \<open>
  Claim C3. At a position whose source pixel has alpha 0 the remapping step writes nothing:
  the body of the loop leaves the new image as it is, and the output image holds there the
  value that the background composition left.
\<close>

theorem transparent_not_remapped:
  assumes "wf_image img" and "x < width img" and "y < height img"
    and "alpha (getpixel img (x, y)) = 0"
  shows "process_pixel img x y new_img = new_img \<and>
         getpixel (update_icon R img) (x, y)
           = getpixel (background R (width img) (height img)) (x, y)"
proof
  show "process_pixel img x y new_img = new_img"
    using assms(4) by (auto simp add: process_pixel_def alpha_def split: prod.splits)
  show "getpixel (update_icon R img) (x, y)
      = getpixel (background R (width img) (height img)) (x, y)"
    using update_icon_pixel[OF assms(1-3), of R] assms(4) by simp
qed

theorem transparent_not_remapped_witness:
  "wf_image sample_icon \<and> 1 < width sample_icon \<and> 1 < height sample_icon \<and>
   alpha (getpixel sample_icon (1, 1)) = 0 \<and>
   process_pixel sample_icon 1 1 (background ideal_raster 2 2) = background ideal_raster 2 2 \<and>
   getpixel (update_icon ideal_raster sample_icon) (1, 1)
     = getpixel (background ideal_raster 2 2) (1, 1)"
proof -
  have h: "wf_image sample_icon" "1 < width sample_icon" "1 < height sample_icon"
    "alpha (getpixel sample_icon (1, 1)) = 0"
    by (simp_all only: wf_sample_icon sample_icon_dims sample_icon_pixels alpha_def) simp_all
  from transparent_not_remapped[OF h, of "background ideal_raster 2 2" ideal_raster] h
  show ?thesis by (simp add: sample_icon_dims)
qed

text \<open>
  Claim C2 says that an output pixel whose source pixel has alpha 0 keeps alpha 0 and the
  transparent base fill, inside the background disc as well as outside. In the sample icon
  the pixel \<open>(1, 1)\<close> has alpha 0 and is the centre of the disc's bounding box: the
  output there is the opaque light red of the disc.
\<close>

theorem transparent_source_counterexample:
  "alpha (getpixel sample_icon (1, 1)) = 0 \<and>
   getpixel (update_icon ideal_raster sample_icon) (1, 1) = (255, 179, 186, 255) \<and>
   alpha (getpixel (update_icon ideal_raster sample_icon) (1, 1)) \<noteq> 0"
proof -
  have h: "wf_image sample_icon" "1 < width sample_icon" "1 < height sample_icon"
    by (simp_all only: wf_sample_icon sample_icon_dims)
  have a: "alpha (getpixel sample_icon (1, 1)) = 0"
    by (simp only: sample_icon_pixels alpha_def) simp
  have "getpixel (update_icon ideal_raster sample_icon) (1, 1)
      = getpixel (background ideal_raster 2 2) (1, 1)"
    using update_icon_pixel[OF h, of ideal_raster] a by (simp add: sample_icon_dims)
  also have "\<dots> = light_red"
    using background_pixel[of 1 2 1 2 ideal_raster] ideal_disc_2(1) by simp
  finally show ?thesis using a by (simp add: light_red_def alpha_def)
qed

text \<open>
  Claim C2, amended. An output pixel whose source pixel has alpha 0 holds what the
  background composition left there: the transparent base fill \<open>(0, 0, 0, 0)\<close> where the
  background disc does not cover the position, and the opaque light red
  \<open>(255, 179, 186, 255)\<close> of the disc where it does.
\<close>

theorem transparent_source_shows_background:
  assumes "wf_image img" and "x < width img" and "y < height img"
    and "alpha (getpixel img (x, y)) = 0"
  shows "getpixel (update_icon R img) (x, y) =
     (if R (FillEllipse (0, 0, of_nat (width img), of_nat (height img))) (x, y)
      then (255, 179, 186, 255) else (0, 0, 0, 0))"
  using update_icon_pixel[OF assms(1-3), of R] assms(4)
    background_pixel[OF assms(2,3), of R]
  by (simp add: light_red_def)

theorem transparent_source_shows_background_witness:
  "wf_image sample_icon \<and> 0 < width sample_icon \<and> 0 < height sample_icon \<and>
   alpha (getpixel sample_icon (0, 0)) = 0 \<and>
   \<not> ideal_raster (FillEllipse (0, 0, 2, 2)) (0, 0) \<and>
   getpixel (update_icon ideal_raster sample_icon) (0, 0) = (0, 0, 0, 0)"
proof -
  have h: "wf_image sample_icon" "0 < width sample_icon" "0 < height sample_icon"
    "alpha (getpixel sample_icon (0, 0)) = 0"
    by (simp_all only: wf_sample_icon sample_icon_dims sample_icon_pixels alpha_def) simp_all
  from transparent_source_shows_background[OF h, of ideal_raster] h ideal_disc_2(2)
  show ?thesis by (simp add: sample_icon_dims)
qed

section \<open>Opaque drawing\<close>

lemma paint_opaque:
  assumes "alpha ink = 255" "j < length (data img)"
  shows "alpha (data (paint R p ink img) ! j) = 255 \<or> data (paint R p ink img) ! j = data img ! j"
  using assms by (simp add: nth_paint)

lemma fold_paint_opaque:
  assumes "list_all (\<lambda>pass. alpha (snd pass) = 255) ps" "j < length (data img)"
  shows "alpha (data (fold (\<lambda>(p, ink). paint R p ink) ps img) ! j) = 255 \<or>
         data (fold (\<lambda>(p, ink). paint R p ink) ps img) ! j = data img ! j"
  using assms
proof (induction ps arbitrary: img)
  case Nil
  then show ?case by simp
next
  case (Cons pass ps)
  obtain p ink where pass: "pass = (p, ink)" by (cases pass)
  have ink: "alpha ink = 255" and rest: "list_all (\<lambda>pass. alpha (snd pass) = 255) ps"
    using Cons.prems(1) by (simp_all add: pass)
  have l: "j < length (data (paint R p ink img))" using Cons.prems(2) by (simp add: length_paint)
  from Cons.IH[OF rest l] paint_opaque[OF ink Cons.prems(2), of R p]
  show ?case by (auto simp add: pass)
qed

lemma draw_opaque:
  assumes "opaque_call c" "j < length (data img)"
  shows "alpha (data (draw R c img) ! j) = 255 \<or> data (draw R c img) ! j = data img ! j"
  using assms unfolding opaque_call_def draw_def by (rule fold_paint_opaque)

lemma fold_draw_dims:
  "width (fold (draw R) cs img) = width img \<and> height (fold (draw R) cs img) = height img \<and>
   length (data (fold (draw R) cs img)) = length (data img)"
  by (induction cs arbitrary: img) (simp_all add: width_draw height_draw length_draw)

lemma fold_draw_opaque:
  assumes "\<forall>c \<in> set cs. opaque_call c" "j < length (data img)"
  shows "alpha (data (fold (draw R) cs img) ! j) = 255 \<or>
         data (fold (draw R) cs img) ! j = data img ! j"
  using assms
proof (induction cs arbitrary: img)
  case Nil
  then show ?case by simp
next
  case (Cons c cs)
  have l: "j < length (data (draw R c img))" using Cons.prems by (simp add: length_draw)
  have o: "\<forall>c \<in> set cs. opaque_call c" "opaque_call c" using Cons.prems by simp_all
  from Cons.IH[OF o(1) l] draw_opaque[OF o(2) Cons.prems(2), of R]
  show ?case by auto
qed

lemma opaque_draw_shelf: "\<forall>c \<in> set (draw_shelf sz i). opaque_call c"
  by (simp add: draw_shelf_def Let_def opaque_call_def alpha_def dark_brown_def box_outline_def)

lemma opaque_draw_3d_box: "\<forall>c \<in> set (draw_3d_box sz x y w h d). opaque_call c"
  by (simp add: draw_3d_box_def Let_def opaque_call_def alpha_def brown_def box_outline_def)

lemma opaque_shelves: "\<forall>c \<in> set (shelves sz). opaque_call c"
  using opaque_draw_shelf by (auto simp add: shelves_def)

lemma opaque_boxes: "\<forall>c \<in> set (boxes sz). opaque_call c"
  using opaque_draw_3d_box by (auto simp add: boxes_def)

lemma storage_icon_dims:
  "width (storage_icon R sz) = sz" "height (storage_icon R sz) = sz"
  "length (data (storage_icon R sz)) = sz * sz"
  by (simp_all add: storage_icon_def fold_draw_dims Image_new_def)

lemma storage_icon_pixel:
  assumes "x < sz" "y < sz"
  shows "(R (FillEllipse (0, 0, of_nat sz, of_nat sz)) (x, y)
           \<longrightarrow> alpha (getpixel (storage_icon R sz) (x, y)) = 255) \<and>
         (alpha (getpixel (storage_icon R sz) (x, y)) = 255 \<or>
          getpixel (storage_icon R sz) (x, y) = (0, 0, 0, 0))"
proof -
  let ?j = "y * sz + x"
  let ?new = "Image_new sz sz (0, 0, 0, 0)"
  let ?bg = "draw R (backdrop sz) ?new"
  have j: "?j < sz * sz" using assms by (rule index_in_range)
  have xy: "?j mod sz = x" "?j div sz = y" using assms by simp_all
  have bg: "data ?bg ! ?j =
      (if R (FillEllipse (0, 0, of_nat sz, of_nat sz)) (x, y) then off_white else (0, 0, 0, 0))"
    using j xy by (simp add: backdrop_def nth_paint Image_new_def draw_Ellipse)
  have lbg: "?j < length (data ?bg)" using j by (simp add: length_draw Image_new_def)
  have rest: "\<forall>c \<in> set (shelves sz @ boxes sz). opaque_call c"
    using opaque_shelves opaque_boxes by auto
  have fin: "storage_icon R sz = fold (draw R) (shelves sz @ boxes sz) ?bg"
    by (simp add: storage_icon_def drawing_calls_def)
  have w: "width (fold (draw R) (shelves sz @ boxes sz) ?bg) = sz"
    by (simp add: fold_draw_dims width_draw Image_new_def del: fold_append)
  from fold_draw_opaque[OF rest lbg, of R]
  show ?thesis
    unfolding fin getpixel_def w fst_conv snd_conv bg
    by (auto simp add: off_white_def alpha_def simp del: fold_append
        split: if_splits)
qed

section \<open>Rounding errors of the coordinates\<close>

lemma tol_nonneg: "0 \<le> tol sz"
  by (simp add: tol_def)

lemma tol_scale: "of_nat sz = 2 ^ 50 * tol sz"
  by (simp add: tol_def)

lemma count_tol: "n \<le> m \<Longrightarrow> of_nat n * tol sz \<le> of_nat m * tol sz"
  by (intro mult_right_mono tol_nonneg) simp

lemma near_rnd:
  assumes "\<bar>x - k * of_nat sz\<bar> \<le> of_nat n * tol sz" "\<bar>k\<bar> \<le> 4" "n \<le> 1024"
  shows "near (n + 1) k sz (rnd x)"
proof -
  define u where "u = tol sz"
  define s :: rat where "s = of_nat sz"
  have u0: "0 \<le> u" unfolding u_def by (rule tol_nonneg)
  have su: "s = 2 ^ 50 * u" unfolding s_def u_def by (rule tol_scale)
  have a: "\<bar>x - k * s\<bar> \<le> of_nat n * u" using assms(1) by (simp add: s_def u_def)
  have "of_nat n * u \<le> of_nat 1024 * u" unfolding u_def using assms(3) by (rule count_tol)
  then have nu: "of_nat n * u \<le> 1024 * u" by simp
  have "\<bar>k * s\<bar> = \<bar>k\<bar> * s" using u0 by (simp add: abs_mult su)
  also have "\<dots> \<le> 4 * s" using assms(2) u0 by (intro mult_right_mono) (simp_all add: su)
  finally have ks: "\<bar>k * s\<bar> \<le> 4 * s" .
  have "\<bar>x\<bar> \<le> 4 * s + 1024 * u" using a nu ks by linarith
  then have "\<bar>x\<bar> / 2 ^ 53 \<le> (4 * s + 1024 * u) / 2 ^ 53" by (simp add: divide_right_mono)
  also have "\<dots> \<le> u" using u0 by (simp add: su)
  finally have "\<bar>rnd x - x\<bar> \<le> u" using rnd_err[of x] by linarith
  then have "\<bar>rnd x - k * s\<bar> \<le> of_nat n * u + u" using a by linarith
  moreover have "of_nat (n + 1) * u = of_nat n * u + u" by (simp add: ring_distribs)
  ultimately show ?thesis by (simp add: near_def s_def u_def)
qed

lemma near_mono:
  assumes "near n k sz x" "k = k'" "n \<le> n'"
  shows "near n' k' sz x"
  using assms(1) count_tol[OF assms(3), of sz] unfolding near_def assms(2) by linarith

lemma near_fsize: "near 1 1 sz (fsize sz)"
  using near_rnd[of "of_nat sz" 1 sz 0] by (simp add: fsize_def float_of_int_def)

lemma near_fadd:
  assumes "near n1 k1 sz a" "near n2 k2 sz b" "\<bar>k1 + k2\<bar> \<le> 4" "n1 + n2 \<le> 1024"
  shows "near (n1 + n2 + 1) (k1 + k2) sz (fadd a b)"
  unfolding fadd_def
proof (rule near_rnd[OF _ assms(3,4)])
  have "a + b - (k1 + k2) * of_nat sz = (a - k1 * of_nat sz) + (b - k2 * of_nat sz)"
    by (simp add: algebra_simps)
  moreover have "of_nat (n1 + n2) * tol sz = of_nat n1 * tol sz + of_nat n2 * tol sz"
    by (simp add: ring_distribs)
  ultimately show "\<bar>a + b - (k1 + k2) * of_nat sz\<bar> \<le> of_nat (n1 + n2) * tol sz"
    using assms(1,2) unfolding near_def by linarith
qed

lemma near_fsub:
  assumes "near n1 k1 sz a" "near n2 k2 sz b" "\<bar>k1 - k2\<bar> \<le> 4" "n1 + n2 \<le> 1024"
  shows "near (n1 + n2 + 1) (k1 - k2) sz (fsub a b)"
  unfolding fsub_def
proof (rule near_rnd[OF _ assms(3,4)])
  have "a - b - (k1 - k2) * of_nat sz = (a - k1 * of_nat sz) - (b - k2 * of_nat sz)"
    by (simp add: algebra_simps)
  moreover have "of_nat (n1 + n2) * tol sz = of_nat n1 * tol sz + of_nat n2 * tol sz"
    by (simp add: ring_distribs)
  ultimately show "\<bar>a - b - (k1 - k2) * of_nat sz\<bar> \<le> of_nat (n1 + n2) * tol sz"
    using assms(1,2) unfolding near_def by linarith
qed

lemma near_scale:
  assumes "near n k sz a"
  shows "\<bar>a * of_nat m - k * of_nat m * of_nat sz\<bar> \<le> of_nat (m * n) * tol sz"
proof -
  have "a * of_nat m - k * of_nat m * of_nat sz = (a - k * of_nat sz) * of_nat m"
    by (simp add: algebra_simps)
  then have "\<bar>a * of_nat m - k * of_nat m * of_nat sz\<bar> = \<bar>a - k * of_nat sz\<bar> * of_nat m"
    by (simp add: abs_mult)
  also have "\<dots> \<le> (of_nat n * tol sz) * of_nat m"
    using assms unfolding near_def by (intro mult_right_mono) simp_all
  also have "\<dots> = of_nat (m * n) * tol sz" by simp
  finally show ?thesis .
qed

lemma near_scale_int:
  assumes "near n k sz a" "0 \<le> z"
  shows "\<bar>a * of_int z - k * of_int z * of_nat sz\<bar> \<le> of_nat (nat z * n) * tol sz"
  using near_scale[OF assms(1), of "nat z"] assms(2) by simp

lemma near_fmul_int:
  assumes "near n k sz a" "float_of_int z = of_int z" "0 \<le> z" "\<bar>k * of_int z\<bar> \<le> 4"
    "nat z * n \<le> 1024"
  shows "near (nat z * n + 1) (k * of_int z) sz (fmul a (float_of_int z))"
  unfolding fmul_def assms(2)
  by (rule near_rnd[OF near_scale_int[OF assms(1,3)] assms(4,5)])

lemma near_int_fmul:
  assumes "near n k sz a" "float_of_int z = of_int z" "0 \<le> z" "\<bar>k * of_int z\<bar> \<le> 4"
    "nat z * n \<le> 1024"
  shows "near (nat z * n + 1) (k * of_int z) sz (fmul (float_of_int z) a)"
  using near_fmul_int[OF assms] by (simp add: fmul_def mult.commute)

lemma near_fdiv_int:
  assumes "near n k sz a" "float_of_int z = of_int z" "0 < z" "\<bar>k / of_int z\<bar> \<le> 4"
    "n \<le> 1024"
  shows "near (n + 1) (k / of_int z) sz (fdiv a (float_of_int z))"
  unfolding fdiv_def assms(2)
proof (rule near_rnd[OF _ assms(4,5)])
  have m1: "(1::rat) \<le> of_int z" using assms(3) by simp
  have "a / of_int z - k / of_int z * of_nat sz = (a - k * of_nat sz) / of_int z"
    by (simp add: diff_divide_distrib)
  then have "\<bar>a / of_int z - k / of_int z * of_nat sz\<bar> = \<bar>a - k * of_nat sz\<bar> / of_int z"
    using assms(3) by simp
  also have "\<dots> \<le> \<bar>a - k * of_nat sz\<bar> / 1"
    using m1 by (intro divide_left_mono) simp_all
  finally show "\<bar>a / of_int z - k / of_int z * of_nat sz\<bar> \<le> of_nat n * tol sz"
    using assms(1) unfolding near_def by simp
qed

lemma near_fmul_lit:
  assumes "near n k sz a" "0 \<le> q" "q \<le> 1" "\<bar>k\<bar> \<le> 4" "n \<le> 1023"
  shows "near (n + 2) (k * q) sz (fmul a (flit q))"
proof -
  define s :: rat where "s = of_nat sz"
  define u where "u = tol sz"
  have u0: "0 \<le> u" unfolding u_def by (rule tol_nonneg)
  have su: "s = 2 ^ 50 * u" unfolding s_def u_def by (rule tol_scale)
  have "of_nat n * u \<le> of_nat 1023 * u" unfolding u_def using assms(5) by (rule count_tol)
  then have nu: "of_nat n * u \<le> 1023 * u" by simp
  have a: "\<bar>a - k * s\<bar> \<le> of_nat n * u" using assms(1) by (simp add: near_def s_def u_def)
  have e: "\<bar>rnd q - q\<bar> \<le> q / 2 ^ 53" using rnd_err[of q] assms(2) by simp
  have q53: "q / 2 ^ 53 \<le> 1 / 2 ^ 53" using assms(3) by (simp add: divide_right_mono)
  have r0: "\<bar>rnd q - q\<bar> \<le> 1 / 2 ^ 53" using e q53 by linarith
  have r1: "\<bar>rnd q\<bar> \<le> 1 + 1 / 2 ^ 53" using r0 assms(2,3) by linarith
  have split: "a * rnd q - k * q * s = (a - k * s) * rnd q + k * s * (rnd q - q)"
    by (simp add: algebra_simps)
  have nu53: "(of_nat n * u) * (1 / 2 ^ 53) \<le> (1023 * u) * (1 / 2 ^ 53)"
    using nu by (rule mult_right_mono) simp
  have t1: "\<bar>(a - k * s) * rnd q\<bar> \<le> of_nat n * u + u / 2"
  proof -
    have "\<bar>(a - k * s) * rnd q\<bar> = \<bar>a - k * s\<bar> * \<bar>rnd q\<bar>" by (rule abs_mult)
    also have "\<dots> \<le> (of_nat n * u) * (1 + 1 / 2 ^ 53)"
      using a r1 by (intro mult_mono) (simp_all add: u0)
    also have "\<dots> = of_nat n * u + (of_nat n * u) * (1 / 2 ^ 53)" by (simp add: ring_distribs)
    also have "\<dots> \<le> of_nat n * u + (1023 * u) * (1 / 2 ^ 53)"
      using nu53 by (rule add_left_mono)
    also have "\<dots> \<le> of_nat n * u + u / 2" using u0 by simp
    finally show ?thesis .
  qed
  have t2: "\<bar>k * s * (rnd q - q)\<bar> \<le> u / 2"
  proof -
    have "\<bar>k * s * (rnd q - q)\<bar> = \<bar>k\<bar> * (s * \<bar>rnd q - q\<bar>)"
      using u0 by (simp add: abs_mult su)
    also have "\<dots> \<le> 4 * (s * (1 / 2 ^ 53))"
      using assms(4) r0 u0 by (intro mult_mono mult_left_mono) (simp_all add: su)
    also have "\<dots> = u / 2" by (simp add: su)
    finally show ?thesis .
  qed
  have "\<bar>a * rnd q - k * q * s\<bar> \<le> of_nat n * u + u"
    unfolding split using t1 t2 by linarith
  moreover have "of_nat (n + 1) * u = of_nat n * u + u" by (simp add: ring_distribs)
  ultimately have m: "\<bar>a * rnd q - k * q * of_nat sz\<bar> \<le> of_nat (n + 1) * tol sz"
    by (simp add: s_def u_def)
  have kq: "\<bar>k * q\<bar> \<le> 4"
  proof -
    have "\<bar>k * q\<bar> = \<bar>k\<bar> * q" using assms(2) by (simp add: abs_mult)
    also have "\<dots> \<le> 4 * 1" using assms(2,3,4) by (intro mult_mono) simp_all
    finally show ?thesis by simp
  qed
  have "n + 1 \<le> 1024" using assms(5) by simp
  with m kq have "near (n + 1 + 1) (k * q) sz (rnd (a * rnd q))" by (rule near_rnd)
  then show ?thesis by (simp add: fmul_def flit_def)
qed

lemma float_of_small_int:
  "float_of_int 1 = 1" "float_of_int 2 = 2" "float_of_int 3 = 3" "float_of_int 4 = 4"
  by (simp_all add: float_of_int_def rnd_eval)

lemmas near_rules = near_fadd near_fsub near_fmul_lit near_fmul_int near_int_fmul near_fdiv_int
  near_fsize


lemma box_ys_near:
  assumes "near 39 ky sz y" "\<bar>ky\<bar> \<le> 1"
  shows "list_all2 (\<lambda>k c. near 64 k sz c) (box_ys ky)
     (concat (map ycoords (draw_3d_box sz x y (box_width sz) (box_height sz) (box_depth sz))))"
  apply (insert assms(2))
  apply (simp add: draw_3d_box_def box_ys_def Let_def box_height_def box_depth_def)
  apply (intro conjI; (rule near_mono, (rule near_rules assms(1) | simp)+))
  done


lemma upt_3: "[0..<3] = [0, 1, 2]"
  by (simp add: upt_rec)


lemma shelf_ys_near:
  assumes "i < 3"
  shows "list_all2 (\<lambda>k c. near 64 k sz c) (shelf_ys i) (concat (map ycoords (draw_shelf sz i)))"
proof -
  have "i = 0 \<or> i = 1 \<or> i = 2" using assms by linarith
  then show ?thesis
    apply (elim disjE)
    apply (simp_all add: draw_shelf_def shelf_ys_def shelf_level_def Let_def box_depth_def
        margin_def content_height_def shelf_spacing_def shelf_thickness_def num_shelves_def)
    apply (intro conjI; (rule near_mono, (rule near_rules | simp add: float_of_small_int)+))+
    done
qed




lemma shelf_1_y_near: "near 39 (shelf_level 0 - 10 / 100) sz (shelf_1_y sz)"
  apply (simp add: shelf_1_y_def shelf_level_def margin_def content_height_def shelf_spacing_def
      box_height_def num_shelves_def)
  apply (rule near_mono, (rule near_rules | simp add: float_of_small_int)+)
  done

lemma shelf_2_y_near: "near 39 (shelf_level 1 - 10 / 100) sz (shelf_2_y sz)"
  apply (simp add: shelf_2_y_def shelf_level_def margin_def content_height_def shelf_spacing_def
      box_height_def num_shelves_def)
  apply (rule near_mono, (rule near_rules | simp add: float_of_small_int)+)
  done

lemma shelf_3_y_near: "near 39 (shelf_level 2 - 10 / 100) sz (shelf_3_y sz)"
  apply (simp add: shelf_3_y_def shelf_level_def margin_def content_height_def shelf_spacing_def
      box_height_def num_shelves_def)
  apply (rule near_mono, (rule near_rules | simp add: float_of_small_int)+)
  done

lemma kinds_draw_shelf:
  "map kind_of (draw_shelf sz i) = [KRectangle, KPolygon 4, KPolygon 4]"
  by (simp add: draw_shelf_def Let_def)

lemma kinds_draw_3d_box:
  "map kind_of (draw_3d_box sz x y w h d) = [KRectangle, KPolygon 4, KPolygon 4, KLine 2]"
  by (simp add: draw_3d_box_def Let_def)

lemma kinds_shelves:
  "map kind_of (shelves sz) = concat (replicate 3 [KRectangle, KPolygon 4, KPolygon 4])"
  by (simp add: shelves_def num_shelves_def upt_3 kinds_draw_shelf numeral_3_eq_3)

lemma kinds_row:
  "map kind_of (concat (map (\<lambda>box_x. draw_3d_box sz box_x y w h d) bxs))
     = concat (replicate (length bxs) [KRectangle, KPolygon 4, KPolygon 4, KLine 2])"
  by (induction bxs) (simp_all add: kinds_draw_3d_box)

lemma length_boxes_shelf:
  "length (boxes_shelf_1 sz) = 3" "length (boxes_shelf_2 sz) = 2" "length (boxes_shelf_3 sz) = 3"
  by (simp_all add: boxes_shelf_1_def boxes_shelf_2_def boxes_shelf_3_def)

lemma kinds_boxes:
  "map kind_of (boxes sz)
     = concat (replicate (3 + 2 + 3) [KRectangle, KPolygon 4, KPolygon 4, KLine 2])"
proof -
  let ?b = "[KRectangle, KPolygon 4, KPolygon 4, KLine 2]"
  have "concat (replicate (3 + 2 + 3) ?b)
      = concat (replicate 3 ?b) @ concat (replicate 2 ?b) @ concat (replicate 3 ?b)"
    by (simp only: replicate_add concat_append append_assoc)
  moreover have "map kind_of (boxes sz)
      = concat (replicate 3 ?b) @ concat (replicate 2 ?b) @ concat (replicate 3 ?b)"
    by (simp add: boxes_def kinds_row length_boxes_shelf)
  ultimately show ?thesis by (simp only:)
qed


lemma row_ys_near:
  assumes "near 39 ky sz y" "\<bar>ky\<bar> \<le> 1"
  shows "list_all2 (\<lambda>k c. near 64 k sz c) (concat (replicate (length bxs) (box_ys ky)))
     (concat (map ycoords (concat (map (\<lambda>box_x. draw_3d_box sz box_x y (box_width sz)
        (box_height sz) (box_depth sz)) bxs))))"
proof (induction bxs)
  case Nil
  show ?case by simp
next
  case (Cons bx bxs)
  from box_ys_near[OF assms, of bx] Cons.IH show ?case by (simp add: list_all2_appendI)
qed




lemma shelves_ys_near:
  "list_all2 (\<lambda>k c. near 64 k sz c) (shelf_ys 0 @ shelf_ys 1 @ shelf_ys 2)
     (concat (map ycoords (shelves sz)))"
  by (simp add: shelves_def num_shelves_def upt_3 list_all2_appendI shelf_ys_near)


lemma boxes_ys_near:
  "list_all2 (\<lambda>k c. near 64 k sz c)
     (box_ys (shelf_level 0 - 10 / 100) @ box_ys (shelf_level 0 - 10 / 100)
      @ box_ys (shelf_level 0 - 10 / 100)
      @ box_ys (shelf_level 1 - 10 / 100) @ box_ys (shelf_level 1 - 10 / 100)
      @ box_ys (shelf_level 2 - 10 / 100) @ box_ys (shelf_level 2 - 10 / 100)
      @ box_ys (shelf_level 2 - 10 / 100))
     (concat (map ycoords (boxes sz)))"
proof -
  have b: "\<bar>shelf_level 0 - 10 / 100\<bar> \<le> 1" "\<bar>shelf_level 1 - 10 / 100\<bar> \<le> 1"
    "\<bar>shelf_level 2 - 10 / 100\<bar> \<le> 1"
    by (simp_all add: shelf_level_def)
  note r1 = row_ys_near[OF shelf_1_y_near b(1), where bxs = "boxes_shelf_1 sz"]
  note r2 = row_ys_near[OF shelf_2_y_near b(2), where bxs = "boxes_shelf_2 sz"]
  note r3 = row_ys_near[OF shelf_3_y_near b(3), where bxs = "boxes_shelf_3 sz"]
  have "list_all2 (\<lambda>k c. near 64 k sz c)
     (concat (replicate (length (boxes_shelf_1 sz)) (box_ys (shelf_level 0 - 10 / 100)))
      @ concat (replicate (length (boxes_shelf_2 sz)) (box_ys (shelf_level 1 - 10 / 100)))
      @ concat (replicate (length (boxes_shelf_3 sz)) (box_ys (shelf_level 2 - 10 / 100))))
     (concat (map ycoords (boxes sz)))"
    unfolding boxes_def map_append concat_append
    by (intro list_all2_appendI r1 r2 r3)
  then show ?thesis
    by (simp add: length_boxes_shelf numeral_3_eq_3 numeral_2_eq_2)
qed



section \<open>Local rasterisers and the corners\<close>

lemma in_box_mono: "in_box b m p \<Longrightarrow> m \<le> m' \<Longrightarrow> in_box b m' p"
  by (auto simp add: in_box_def split: prod.splits)

lemma in_hull_mono:
  assumes "in_hull ps m p" "m \<le> m'"
  shows "in_hull ps m' p"
proof -
  obtain x y where p: "p = (x, y)" by (cases p)
  from assms(1) obtain q1 q2 q3 q4 where q: "q1 \<in> set ps" "fst q1 - m \<le> x"
    "q2 \<in> set ps" "x \<le> fst q2 + m" "q3 \<in> set ps" "snd q3 - m \<le> y"
    "q4 \<in> set ps" "y \<le> snd q4 + m"
    unfolding in_hull_def p list_ex_iff by auto
  have "fst q1 - m' \<le> x" "x \<le> fst q2 + m'" "snd q3 - m' \<le> y" "y \<le> snd q4 + m'"
    using q assms(2) by linarith+
  with q(1,3,5,7) show ?thesis unfolding in_hull_def p list_ex_iff by auto
qed

lemma edges_subset: "e \<in> set (edges ps) \<Longrightarrow> fst e \<in> set ps \<and> snd e \<in> set ps"
  by (induction ps rule: edges.induct) auto

lemma closed_edges_subset:
  "e \<in> set (closed_edges ps) \<Longrightarrow> fst e \<in> set ps \<and> snd e \<in> set ps"
  using edges_subset[of e "ps @ [hd ps]"]
  by (cases ps) (auto simp add: closed_edges_def)

lemma near_segment_hull:
  assumes "near_segment d p e" "fst e \<in> set ps" "snd e \<in> set ps"
  shows "in_hull ps d p"
proof -
  obtain x y where p: "p = (x, y)" by (cases p)
  obtain ax ay bx "by" where e: "e = ((ax, ay), (bx, by))" by (cases e) auto
  have a: "(ax, ay) \<in> set ps" and b: "(bx, by) \<in> set ps" using assms(2,3) by (simp_all add: e)
  have box: "min ax bx - d \<le> x" "x \<le> max ax bx + d" "min ay by - d \<le> y" "y \<le> max ay by + d"
    using assms(1) by (simp_all add: near_segment_def in_box_def p e)
  have "\<exists>q \<in> set ps. fst q - d \<le> x"
    using box(1) a b by (cases "ax \<le> bx") (force simp add: min_def)+
  moreover have "\<exists>q \<in> set ps. x \<le> fst q + d"
    using box(2) a b by (cases "ax \<le> bx") (force simp add: max_def)+
  moreover have "\<exists>q \<in> set ps. snd q - d \<le> y"
    using box(3) a b by (cases "ay \<le> by") (force simp add: min_def)+
  moreover have "\<exists>q \<in> set ps. y \<le> snd q + d"
    using box(4) a b by (cases "ay \<le> by") (force simp add: max_def)+
  ultimately show ?thesis by (simp add: in_hull_def p list_ex_iff)
qed

lemma ellipse_widen:
  assumes "in_box b 0 p" "in_ellipse b 0 p"
  shows "in_ellipse b 1 p"
proof -
  obtain x y where p: "p = (x, y)" by (cases p)
  obtain x0 y0 x1 y1 where b: "b = (x0, y0, x1, y1)" by (cases b) auto
  define A B X Y where "A = x1 - x0" and "B = y1 - y0"
    and "X = (2 * x - x0 - x1)\<^sup>2" and "Y = (2 * y - y0 - y1)\<^sup>2"
  have box: "x0 \<le> x" "x \<le> x1" "y0 \<le> y" "y \<le> y1"
    using assms(1) by (simp_all add: in_box_def p b)
  have A0: "0 \<le> A" and B0: "0 \<le> B" using box by (simp_all add: A_def B_def)
  have X0: "0 \<le> X" and Y0: "0 \<le> Y" by (simp_all add: X_def Y_def)
  have "\<bar>2 * x - x0 - x1\<bar> \<le> A" using box by (simp add: A_def abs_le_iff)
  then have XA: "X \<le> A\<^sup>2" unfolding X_def by (metis abs_le_square_iff abs_of_nonneg A0)
  have "\<bar>2 * y - y0 - y1\<bar> \<le> B" using box by (simp add: B_def abs_le_iff)
  then have YB: "Y \<le> B\<^sup>2" unfolding Y_def by (metis abs_le_square_iff abs_of_nonneg B0)
  have E: "X * B\<^sup>2 + Y * A\<^sup>2 \<le> A\<^sup>2 * B\<^sup>2"
    using assms(2) by (simp add: in_ellipse_def p b A_def B_def X_def Y_def)
  text \<open>The widened axes exceed the old ones by the non-negative amounts \<open>a\<close> and \<open>c\<close>.\<close>
  define a c where "a = (A + 2)\<^sup>2 - A\<^sup>2" and "c = (B + 2)\<^sup>2 - B\<^sup>2"
  have a0: "0 \<le> a" using A0 by (simp add: a_def power2_eq_square algebra_simps)
  have c0: "0 \<le> c" using B0 by (simp add: c_def power2_eq_square algebra_simps)
  have A2: "(A + 2)\<^sup>2 = A\<^sup>2 + a" and B2: "(B + 2)\<^sup>2 = B\<^sup>2 + c" by (simp_all add: a_def c_def)
  have "X * c \<le> A\<^sup>2 * c" using XA c0 by (rule mult_right_mono)
  moreover have "Y * a \<le> B\<^sup>2 * a" using YB a0 by (rule mult_right_mono)
  moreover have "0 \<le> a * c" using a0 c0 by simp
  ultimately have "X * (B\<^sup>2 + c) + Y * (A\<^sup>2 + a) \<le> (A\<^sup>2 + a) * (B\<^sup>2 + c)"
    using E by (simp add: algebra_simps)
  then have "X * (B + 2)\<^sup>2 + Y * (A + 2)\<^sup>2 \<le> (A + 2)\<^sup>2 * (B + 2)\<^sup>2"
    by (simp only: A2 B2)
  then show ?thesis
    by (simp add: in_ellipse_def p b A_def B_def X_def Y_def)
qed

lemma covers_reach: "covers q p \<Longrightarrow> reach q p"
proof (induction q p rule: covers.induct)
  case (1 b p)
  then show ?case by (simp add: ellipse_widen)
next
  case (2 b p)
  then show ?case by (simp add: in_box_mono)
next
  case (3 b w p)
  then have "in_box b 0 p" by (auto split: prod.splits)
  then show ?case by (simp add: in_box_mono)
next
  case (4 ps p)
  then have "in_hull ps 0 p" by simp
  then show ?case by (simp add: in_hull_mono)
next
  case (5 ps p)
  then obtain e where e: "e \<in> set (closed_edges ps)" "near_segment (1 / 2) p e"
    by (auto simp add: list_ex_iff)
  from near_segment_hull[OF e(2)] closed_edges_subset[OF e(1)]
  have "in_hull ps (1 / 2) p" by simp
  then show ?case by (simp add: in_hull_mono)
next
  case (6 ps w p)
  then obtain e where e: "e \<in> set (edges ps)" "near_segment (of_int w / 2) p e"
    by (auto simp add: list_ex_iff)
  from near_segment_hull[OF e(2)] edges_subset[OF e(1)]
  have h: "in_hull ps (of_int w / 2) p" by simp
  have "(of_int w :: rat) / 2 \<le> of_int \<bar>w\<bar> + 1"
  proof -
    have "(of_int w :: rat) \<le> of_int \<bar>w\<bar>" by (simp only: of_int_le_iff)
    moreover have "(0::rat) \<le> of_int \<bar>w\<bar>" by simp
    ultimately show ?thesis by linarith
  qed
  with h show ?case by (simp add: in_hull_mono)
qed

lemma local_ideal_raster: "local_raster ideal_raster"
  by (simp add: local_raster_def ideal_raster_def covers_reach)

lemma corner_outside_disc:
  assumes "12 \<le> sz" "x = 0 \<or> x = sz - 1" "y = 0 \<or> y = sz - 1"
  shows "\<not> in_ellipse (0, 0, of_nat sz, of_nat sz) 1 (of_nat x, of_nat y)"
proof -
  define s :: rat where "s = of_nat sz"
  define X Y where "X = (2 * of_nat x - s)\<^sup>2" and "Y = (2 * of_nat y - s)\<^sup>2"
  have s12: "12 \<le> s" using assms(1) unfolding s_def by (metis of_nat_le_iff of_nat_numeral)
  have pred: "(of_nat (sz - 1) :: rat) = s - 1" using assms(1) by (simp add: s_def of_nat_diff)
  have lower: "(s - 2)\<^sup>2 \<le> (2 * of_nat c - s)\<^sup>2" if "c = 0 \<or> c = sz - 1" for c
  proof -
    from that have "2 * (of_nat c :: rat) - s = - s \<or> 2 * (of_nat c :: rat) - s = s - 2"
      using pred by auto
    moreover have "(s - 2)\<^sup>2 \<le> (- s)\<^sup>2"
    proof -
      have "(- s)\<^sup>2 - (s - 2)\<^sup>2 = 4 * s - 4" by (simp add: power2_eq_square algebra_simps)
      then show ?thesis using s12 by linarith
    qed
    ultimately show ?thesis by auto
  qed
  have XY: "2 * (s - 2)\<^sup>2 \<le> X + Y"
    using lower[OF assms(2)] lower[OF assms(3)] unfolding X_def Y_def by linarith
  have "2 * (s - 2)\<^sup>2 - (s + 2)\<^sup>2 = s * (s - 12) + 4"
    by (simp add: power2_eq_square algebra_simps)
  moreover have "0 \<le> s * (s - 12)" using s12 by simp
  ultimately have gt: "(s + 2)\<^sup>2 < X + Y" using XY by linarith
  have t0: "0 < (s + 2)\<^sup>2" using s12 by simp
  have "(s + 2)\<^sup>2 * (s + 2)\<^sup>2 < (X + Y) * (s + 2)\<^sup>2"
    using gt t0 by (rule mult_strict_right_mono)
  then have "\<not> X * (s + 2)\<^sup>2 + Y * (s + 2)\<^sup>2 \<le> (s + 2)\<^sup>2 * (s + 2)\<^sup>2"
    by (simp add: algebra_simps)
  then show ?thesis
    by (simp add: in_ellipse_def X_def Y_def s_def)
qed

lemma near_range:
  assumes "near 64 k sz v" "207 / 1000 \<le> k" "k \<le> 715 / 1000"
  shows "2069 / 10000 * of_nat sz \<le> v \<and> v \<le> 7151 / 10000 * of_nat sz"
proof -
  define s :: rat where "s = of_nat sz"
  have s0: "0 \<le> s" by (simp add: s_def)
  have e: "\<bar>v - k * s\<bar> \<le> s / 2 ^ 44" using assms(1) by (simp add: near_def tol_def s_def)
  have "s / 2 ^ 44 \<le> s / 10000" using s0 by simp
  moreover have "207 / 1000 * s \<le> k * s" using assms(2) s0 by (rule mult_right_mono)
  moreover have "k * s \<le> 715 / 1000 * s" using assms(3) s0 by (rule mult_right_mono)
  ultimately show ?thesis using e unfolding s_def[symmetric] by linarith
qed

lemma list_all2_range:
  assumes "list_all2 (\<lambda>k c. near 64 k sz c) ks vs"
    "\<forall>k \<in> set ks. 207 / 1000 \<le> k \<and> k \<le> 715 / 1000"
  shows "\<forall>v \<in> set vs. 2069 / 10000 * of_nat sz \<le> v \<and> v \<le> 7151 / 10000 * of_nat sz"
  using assms
proof (induction rule: list_all2_induct)
  case Nil
  show ?case by simp
next
  case (Cons k ks v vs)
  from near_range[OF Cons.hyps(1)] Cons.prems Cons.IH show ?case by simp
qed

lemma shelves_ys_range:
  "\<forall>c \<in> set (shelves sz). \<forall>v \<in> set (ycoords c).
     2069 / 10000 * of_nat sz \<le> v \<and> v \<le> 7151 / 10000 * of_nat sz"
proof -
  have "\<forall>k \<in> set (shelf_ys 0 @ shelf_ys 1 @ shelf_ys 2). 207 / 1000 \<le> k \<and> k \<le> 715 / 1000"
    by (simp add: shelf_ys_def shelf_level_def Let_def)
  from list_all2_range[OF shelves_ys_near this] show ?thesis by simp
qed

lemma boxes_ys_range:
  "\<forall>c \<in> set (boxes sz). \<forall>v \<in> set (ycoords c).
     2069 / 10000 * of_nat sz \<le> v \<and> v \<le> 7151 / 10000 * of_nat sz"
proof -
  have "\<forall>k \<in> set (box_ys (shelf_level 0 - 10 / 100) @ box_ys (shelf_level 0 - 10 / 100)
      @ box_ys (shelf_level 0 - 10 / 100)
      @ box_ys (shelf_level 1 - 10 / 100) @ box_ys (shelf_level 1 - 10 / 100)
      @ box_ys (shelf_level 2 - 10 / 100) @ box_ys (shelf_level 2 - 10 / 100)
      @ box_ys (shelf_level 2 - 10 / 100)). 207 / 1000 \<le> k \<and> k \<le> 715 / 1000"
    by (simp add: box_ys_def shelf_level_def)
  from list_all2_range[OF boxes_ys_near this] show ?thesis by simp
qed

lemma py_int_le: "of_int (py_int v) \<le> max 0 v"
proof (cases "0 \<le> v")
  case True
  then show ?thesis by (simp add: py_int_def)
next
  case False
  then have "\<lceil>v\<rceil> \<le> 0" by (simp add: ceiling_le_iff)
  then have "(of_int \<lceil>v\<rceil> :: rat) \<le> 0" by simp
  with False show ?thesis by (simp add: py_int_def)
qed

lemma width_bound:
  assumes "0 \<le> q" "q \<le> 5 / 1000"
  shows "(of_int (max 1 (py_int (fmul (fsize sz) (flit q)))) :: rat) \<le> 1 + 6 / 1000 * of_nat sz"
proof -
  define s :: rat where "s = of_nat sz"
  define v where "v = fmul (fsize sz) (flit q)"
  have s0: "0 \<le> s" by (simp add: s_def)
  have "near (1 + 2) (1 * q) sz v"
    unfolding v_def using assms by (intro near_fmul_lit near_fsize) simp_all
  then have "\<bar>v - q * s\<bar> \<le> 3 * (s / 2 ^ 50)" by (simp add: near_def tol_def s_def)
  moreover have "3 * (s / 2 ^ 50) \<le> s / 1000" using s0 by simp
  moreover have "q * s \<le> 5 / 1000 * s" using assms(2) s0 by (rule mult_right_mono)
  ultimately have "v \<le> 6 / 1000 * s" by linarith
  then have "max 0 v \<le> 6 / 1000 * s" using s0 by simp
  then have "of_int (py_int v) \<le> 6 / 1000 * s" using py_int_le[of v] by linarith
  then show ?thesis using s0 unfolding v_def s_def by (simp add: max_def)
qed

lemma stroke_bound:
  "\<forall>c \<in> set (shelves sz @ boxes sz).
     0 \<le> stroke c \<and> (of_int (stroke c) :: rat) \<le> 1 + 6 / 1000 * of_nat sz"
proof -
  have s0: "(0::rat) \<le> 1 + 6 / 1000 * of_nat sz" by simp
  note w1 = width_bound[of "5 / 1000" sz] and w2 = width_bound[of "4 / 1000" sz]
  have shelf: "0 \<le> stroke c \<and> (of_int (stroke c) :: rat) \<le> 1 + 6 / 1000 * of_nat sz"
    if "c \<in> set (draw_shelf sz i)" for c i
    using that w1 s0 by (auto simp add: draw_shelf_def Let_def)
  have box: "0 \<le> stroke c \<and> (of_int (stroke c) :: rat) \<le> 1 + 6 / 1000 * of_nat sz"
    if "c \<in> set (draw_3d_box sz x y w h d)" for c x y w h d
    using that w1 w2 s0 by (auto simp add: draw_3d_box_def Let_def)
  show ?thesis using shelf box by (auto simp add: shelves_def boxes_def)
qed

lemma in_box_rows:
  assumes "in_box (x0, y0, x1, y1) m (px, py)"
  shows "y0 - m \<le> py" "py \<le> y1 + m"
  using assms by (simp_all add: in_box_def)

lemma in_hull_rows:
  assumes "in_hull ps m (px, py)"
  shows "\<exists>v \<in> set (map snd ps). v - m \<le> py" "\<exists>v \<in> set (map snd ps). py \<le> v + m"
  using assms by (auto simp add: in_hull_def list_ex_iff)

lemma call_misses_row:
  assumes R: "local_raster R"
    and c: "kind_of c \<noteq> KEllipse"
    and far: "(\<forall>v \<in> set (ycoords c). of_nat y < v - (of_int \<bar>stroke c\<bar> + 1)) \<or>
              (\<forall>v \<in> set (ycoords c). v + (of_int \<bar>stroke c\<bar> + 1) < of_nat y)"
  shows "\<forall>pass \<in> set (passes c). \<not> R (fst pass) (x, y)"
proof -
  have miss: "\<not> R p (x, y)" if "\<not> reach p (of_nat x, of_nat y)" for p
    using R that unfolding local_raster_def by blast
  show ?thesis
  proof (cases c)
    case (Ellipse xy fill)
    with c show ?thesis by simp
  next
    case (Rectangle xy fill outline w)
    obtain x0 y0 x1 y1 where xy: "xy = (x0, y0, x1, y1)" by (cases xy) auto
    have f: "of_nat y < y0 - (of_int \<bar>w\<bar> + 1) \<or> y1 + (of_int \<bar>w\<bar> + 1) < (of_nat y :: rat)"
      using far by (auto simp add: Rectangle xy)
    have w0: "(0::rat) \<le> of_int \<bar>w\<bar>" by simp
    have "\<not> in_box xy 1 (of_nat x, of_nat y)"
      using f w0 in_box_rows[of x0 y0 x1 y1 1 "of_nat x" "of_nat y"] unfolding xy by linarith
    moreover have "\<not> in_box xy (of_int \<bar>w\<bar> + 1) (of_nat x, of_nat y)"
      using f in_box_rows[of x0 y0 x1 y1 "of_int \<bar>w\<bar> + 1" "of_nat x" "of_nat y"] unfolding xy
      by linarith
    ultimately show ?thesis using miss by (auto simp add: Rectangle)
  next
    case (Polygon ps fill outline)
    have f: "(\<forall>v \<in> set (map snd ps). of_nat y < v - 1) \<or>
             (\<forall>v \<in> set (map snd ps). v + 1 < (of_nat y :: rat))"
      using far by (simp add: Polygon)
    have "\<not> in_hull ps 1 (of_nat x, of_nat y)"
    proof
      assume "in_hull ps 1 (of_nat x, of_nat y)"
      from in_hull_rows[OF this] f show False by fastforce
    qed
    then show ?thesis using miss by (auto simp add: Polygon)
  next
    case (Line ps fill w)
    have f: "(\<forall>v \<in> set (map snd ps). of_nat y < v - (of_int \<bar>w\<bar> + 1)) \<or>
             (\<forall>v \<in> set (map snd ps). v + (of_int \<bar>w\<bar> + 1) < (of_nat y :: rat))"
      using far by (simp add: Line)
    have "\<not> in_hull ps (of_int \<bar>w\<bar> + 1) (of_nat x, of_nat y)"
    proof
      assume "in_hull ps (of_int \<bar>w\<bar> + 1) (of_nat x, of_nat y)"
      from in_hull_rows[OF this] f show False by fastforce
    qed
    then show ?thesis using miss by (auto simp add: Line)
  qed
qed

lemma fold_paint_untouched:
  assumes "\<forall>pass \<in> set ps. \<not> R (fst pass) (j mod width img, j div width img)"
    "j < length (data img)"
  shows "data (fold (\<lambda>(p, ink). paint R p ink) ps img) ! j = data img ! j"
  using assms
proof (induction ps arbitrary: img)
  case Nil
  show ?case by simp
next
  case (Cons pass ps)
  obtain p ink where pass: "pass = (p, ink)" by (cases pass)
  have l: "j < length (data (paint R p ink img))" using Cons.prems(2) by (simp add: length_paint)
  have r: "\<forall>pass \<in> set ps. \<not> R (fst pass)
      (j mod width (paint R p ink img), j div width (paint R p ink img))"
    using Cons.prems(1) by (simp add: width_paint)
  have "data (paint R p ink img) ! j = data img ! j"
    using Cons.prems by (simp add: nth_paint pass)
  with Cons.IH[OF r l] show ?case by (simp add: pass)
qed

lemma fold_draw_untouched:
  assumes "\<forall>c \<in> set cs. \<forall>pass \<in> set (passes c). \<not> R (fst pass) (j mod width img, j div width img)"
    "j < length (data img)"
  shows "data (fold (draw R) cs img) ! j = data img ! j"
  using assms
proof (induction cs arbitrary: img)
  case Nil
  show ?case by simp
next
  case (Cons c cs)
  have l: "j < length (data (draw R c img))" using Cons.prems(2) by (simp add: length_draw)
  have r: "\<forall>c' \<in> set cs. \<forall>pass \<in> set (passes c').
      \<not> R (fst pass) (j mod width (draw R c img), j div width (draw R c img))"
    using Cons.prems(1) by (simp add: width_draw)
  have "data (draw R c img) ! j = data img ! j"
    unfolding draw_def using Cons.prems by (intro fold_paint_untouched) simp_all
  with Cons.IH[OF r l] show ?case by simp
qed

lemma not_ellipse_shelves_boxes:
  "\<forall>c \<in> set (shelves sz @ boxes sz). kind_of c \<noteq> KEllipse"
proof
  fix c
  assume "c \<in> set (shelves sz @ boxes sz)"
  then have "kind_of c \<in> set (map kind_of (shelves sz)) \<union> set (map kind_of (boxes sz))"
    by auto
  then show "kind_of c \<noteq> KEllipse"
    unfolding kinds_shelves kinds_boxes by auto
qed

lemma corner_rows:
  assumes "12 \<le> sz" "y = 0 \<or> y = sz - 1" "c \<in> set (shelves sz @ boxes sz)"
  shows "(\<forall>v \<in> set (ycoords c). of_nat y < v - (of_int \<bar>stroke c\<bar> + 1)) \<or>
         (\<forall>v \<in> set (ycoords c). v + (of_int \<bar>stroke c\<bar> + 1) < of_nat y)"
proof -
  define s :: rat where "s = of_nat sz"
  define m :: rat where "m = of_int \<bar>stroke c\<bar> + 1"
  have s12: "12 \<le> s" using assms(1) unfolding s_def by (metis of_nat_le_iff of_nat_numeral)
  have st: "0 \<le> stroke c" "(of_int (stroke c) :: rat) \<le> 1 + 6 / 1000 * s"
    using stroke_bound[of sz] assms(3) unfolding s_def by blast+
  have m: "m \<le> 2 + 6 / 1000 * s" using st by (simp add: m_def)
  have ys: "\<forall>v \<in> set (ycoords c). 2069 / 10000 * s \<le> v \<and> v \<le> 7151 / 10000 * s"
    using shelves_ys_range[of sz] boxes_ys_range[of sz] assms(3) unfolding s_def by auto
  from assms(2) show ?thesis
  proof
    assume "y = 0"
    have "0 < 2069 / 10000 * s - (2 + 6 / 1000 * s)" using s12 by simp
    then have "\<forall>v \<in> set (ycoords c). of_nat y < v - m"
      using ys m \<open>y = 0\<close> by fastforce
    then show ?thesis unfolding m_def by blast
  next
    assume y: "y = sz - 1"
    have "(of_nat y :: rat) = s - 1" using assms(1) by (simp add: y s_def of_nat_diff)
    moreover have "7151 / 10000 * s + (2 + 6 / 1000 * s) < s - 1" using s12 by simp
    ultimately have "\<forall>v \<in> set (ycoords c). v + m < of_nat y"
      using ys m by fastforce
    then show ?thesis unfolding m_def by blast
  qed
qed

section \<open>The claims about the Icon Synthesizer\<close>






text \<open>
  Claim C10 says that for every size above 0 the four corner pixels lie outside the circle
  and every shape and stay transparent. At size 2 the corner \<open>(1, 1)\<close> is the centre of
  the circle's bounding box \<open>[0, 0, 2, 2]\<close>: the circle covers it and it is opaque.
\<close>

theorem small_icon_corner_counterexample:
  "width (storage_icon ideal_raster 2) = 2 \<and> height (storage_icon ideal_raster 2) = 2 \<and>
   ideal_raster (FillEllipse (0, 0, 2, 2)) (1, 1) \<and>
   alpha (getpixel (storage_icon ideal_raster 2) (1, 1)) = 255"
proof -
  have c: "ideal_raster (FillEllipse (0, 0, of_nat 2, of_nat 2)) (1, 1)"
    using ideal_disc_2(1) by simp
  have "(1::nat) < 2" by simp
  from storage_icon_pixel[OF this this, of ideal_raster] c
  have "alpha (getpixel (storage_icon ideal_raster 2) (1, 1)) = 255" by simp
  with ideal_disc_2(1) show ?thesis by (simp add: storage_icon_dims)
qed

text \<open>
  Claim C10, amended. For every size from 12 on and every local rasteriser, no pass of any
  drawing call covers any of the four corner pixels: they lie outside the background circle
  and every drawn shape, and they stay fully transparent.
\<close>

theorem corners_transparent:
  assumes "local_raster R" and "12 \<le> sz" and "x = 0 \<or> x = sz - 1" and "y = 0 \<or> y = sz - 1"
  shows "(\<forall>c \<in> set (drawing_calls sz). \<forall>pass \<in> set (passes c). \<not> R (fst pass) (x, y)) \<and>
         getpixel (storage_icon R sz) (x, y) = (0, 0, 0, 0)"
proof -
  have xs: "x < sz" and ys: "y < sz" using assms(2,3,4) by auto
  have disc: "\<not> R (FillEllipse (0, 0, of_nat sz, of_nat sz)) (x, y)"
    using assms(1) corner_outside_disc[OF assms(2,3,4)] unfolding local_raster_def
    by (metis reach.simps(1))
  have rest: "\<forall>pass \<in> set (passes c). \<not> R (fst pass) (x, y)"
    if "c \<in> set (shelves sz @ boxes sz)" for c
    using assms(1) not_ellipse_shelves_boxes that corner_rows[OF assms(2,4) that]
    by (intro call_misses_row) auto
  have all: "\<forall>c \<in> set (drawing_calls sz). \<forall>pass \<in> set (passes c). \<not> R (fst pass) (x, y)"
    using disc rest by (auto simp add: drawing_calls_def backdrop_def)
  let ?new = "Image_new sz sz (0, 0, 0, 0)"
  let ?j = "y * sz + x"
  have j: "?j < length (data ?new)" using index_in_range[OF xs ys] by (simp add: Image_new_def)
  have xy: "?j mod width ?new = x" "?j div width ?new = y"
    using xs by (simp_all add: Image_new_def)
  have "data (fold (draw R) (drawing_calls sz) ?new) ! ?j = data ?new ! ?j"
    using all j by (intro fold_draw_untouched) (simp_all only: xy)
  also have "\<dots> = (0, 0, 0, 0)" using index_in_range[OF xs ys] by (simp add: Image_new_def)
  finally have "getpixel (storage_icon R sz) (x, y) = (0, 0, 0, 0)"
    by (simp add: getpixel_def storage_icon_dims) (simp add: storage_icon_def)
  with all show ?thesis by blast
qed

theorem corners_transparent_witness:
  "local_raster ideal_raster \<and> (12::nat) \<le> 192 \<and>
   getpixel (storage_icon ideal_raster 192) (0, 0) = (0, 0, 0, 0) \<and>
   getpixel (storage_icon ideal_raster 192) (191, 0) = (0, 0, 0, 0) \<and>
   getpixel (storage_icon ideal_raster 192) (0, 191) = (0, 0, 0, 0) \<and>
   getpixel (storage_icon ideal_raster 192) (191, 191) = (0, 0, 0, 0)"
proof -
  have h: "(12::nat) \<le> 192" by simp
  have z: "(0::nat) = 0 \<or> (0::nat) = 192 - 1" by simp
  have e: "(191::nat) = 0 \<or> (191::nat) = 192 - 1" by simp
  from corners_transparent[OF local_ideal_raster h z z]
    corners_transparent[OF local_ideal_raster h e z]
    corners_transparent[OF local_ideal_raster h z e]
    corners_transparent[OF local_ideal_raster h e e]
  show ?thesis using local_ideal_raster by simp
qed

end
